theory Spec2Isabelle
  imports Complex_Main "HOL-Library.Word"
begin

section \<open>Single-precision values\<close>

text \<open>
  The classifier computes on C \<^verbatim>\<open>float\<close> values. A value is a real number, one of the two
  infinities, or a NaN. The two zeros are identified (no operation below looks at the sign of
  a zero except a division by zero, where the divisors that occur are sums of squares and
  square roots, that is, positive zeros). Every arithmetic operation takes the rounding
  function \<open>rd\<close> it applies to its exact result, so that each theorem says for which
  roundings it holds: \<open>binary32\<close> is IEEE round-to-nearest-even on 24 bits, \<open>Fin\<close> is
  exact arithmetic.
\<close>

datatype fl = Fin real | PInf | NInf | NaN

type_synonym rounding = "real \<Rightarrow> fl"

fun fneg :: "fl \<Rightarrow> fl" where
  "fneg (Fin x) = Fin (- x)"
| "fneg PInf = NInf"
| "fneg NInf = PInf"
| "fneg NaN = NaN"

fun fadd :: "rounding \<Rightarrow> fl \<Rightarrow> fl \<Rightarrow> fl" where
  "fadd rd (Fin x) (Fin y) = rd (x + y)"
| "fadd rd NaN b = NaN"
| "fadd rd a NaN = NaN"
| "fadd rd PInf NInf = NaN"
| "fadd rd NInf PInf = NaN"
| "fadd rd PInf b = PInf"
| "fadd rd a PInf = PInf"
| "fadd rd NInf b = NInf"
| "fadd rd a NInf = NInf"

definition fsub :: "rounding \<Rightarrow> fl \<Rightarrow> fl \<Rightarrow> fl" where
  "fsub rd a b = fadd rd a (fneg b)"

fun fmul :: "rounding \<Rightarrow> fl \<Rightarrow> fl \<Rightarrow> fl" where
  "fmul rd (Fin x) (Fin y) = rd (x * y)"
| "fmul rd NaN b = NaN"
| "fmul rd a NaN = NaN"
| "fmul rd PInf (Fin y) = (if y = 0 then NaN else if 0 < y then PInf else NInf)"
| "fmul rd NInf (Fin y) = (if y = 0 then NaN else if 0 < y then NInf else PInf)"
| "fmul rd (Fin x) PInf = (if x = 0 then NaN else if 0 < x then PInf else NInf)"
| "fmul rd (Fin x) NInf = (if x = 0 then NaN else if 0 < x then NInf else PInf)"
| "fmul rd PInf PInf = PInf"
| "fmul rd PInf NInf = NInf"
| "fmul rd NInf PInf = NInf"
| "fmul rd NInf NInf = PInf"

fun fdiv :: "rounding \<Rightarrow> fl \<Rightarrow> fl \<Rightarrow> fl" where
  "fdiv rd (Fin x) (Fin y) =
     (if y = 0 then (if x = 0 then NaN else if 0 < x then PInf else NInf) else rd (x / y))"
| "fdiv rd NaN b = NaN"
| "fdiv rd a NaN = NaN"
| "fdiv rd (Fin x) b = Fin 0"
| "fdiv rd PInf (Fin y) = (if 0 \<le> y then PInf else NInf)"
| "fdiv rd NInf (Fin y) = (if 0 \<le> y then NInf else PInf)"
| "fdiv rd a b = NaN"

fun fsqrt :: "rounding \<Rightarrow> fl \<Rightarrow> fl" where
  "fsqrt rd (Fin x) = (if x < 0 then NaN else rd (sqrt x))"
| "fsqrt rd PInf = PInf"
| "fsqrt rd NInf = NaN"
| "fsqrt rd NaN = NaN"

text \<open>\<^verbatim>\<open>powf\<close> on a positive finite base and a finite exponent, the only call the classifier makes.\<close>

fun fpow :: "rounding \<Rightarrow> fl \<Rightarrow> fl \<Rightarrow> fl" where
  "fpow rd (Fin x) (Fin y) = (if 0 < x then rd (x powr y) else NaN)"
| "fpow rd a b = NaN"

text \<open>The comparisons of C: every comparison with a NaN is false, except \<^verbatim>\<open>!=\<close>.\<close>

fun flt :: "fl \<Rightarrow> fl \<Rightarrow> bool" where
  "flt NaN b = False"
| "flt a NaN = False"
| "flt (Fin x) (Fin y) = (x < y)"
| "flt a NInf = False"
| "flt NInf b = True"
| "flt PInf b = False"
| "flt a PInf = True"

definition feq :: "fl \<Rightarrow> fl \<Rightarrow> bool" where
  "feq a b = (a \<noteq> NaN \<and> a = b)"

definition fne :: "fl \<Rightarrow> fl \<Rightarrow> bool" where
  "fne a b = (\<not> feq a b)"

definition fgt :: "fl \<Rightarrow> fl \<Rightarrow> bool" where
  "fgt a b = flt b a"

definition fge :: "fl \<Rightarrow> fl \<Rightarrow> bool" where
  "fge a b = (flt b a \<or> feq a b)"

text \<open>Round to nearest, ties to even, on \<open>p\<close> bits with exponents from \<open>emin\<close> to \<open>emax\<close>.\<close>

definition round_even :: "real \<Rightarrow> int" where
  "round_even x =
     (let f = \<lfloor>x\<rfloor>; d = x - of_int f
      in if d < 1 / 2 then f else if 1 / 2 < d then f + 1 else if even f then f else f + 1)"

definition pow2 :: "int \<Rightarrow> real" where
  "pow2 e = (if 0 \<le> e then 2 ^ nat e else 1 / 2 ^ nat (- e))"

definition round_binary :: "nat \<Rightarrow> int \<Rightarrow> int \<Rightarrow> rounding" where
  "round_binary p emin emax x =
     (if x = 0 then Fin 0
      else
        let e = max \<lfloor>log 2 \<bar>x\<bar>\<rfloor> emin;
            u = pow2 (e - int p + 1);
            y = of_int (round_even (x / u)) * u
        in if pow2 (emax + 1) \<le> \<bar>y\<bar> then (if 0 < x then PInf else NInf) else Fin y)"

definition binary32 :: rounding where
  "binary32 = round_binary 24 (- 126) 127"

definition binary64 :: rounding where
  "binary64 = round_binary 53 (- 1022) 1023"

definition FLT_MAX :: fl where
  "FLT_MAX = Fin ((2 ^ 24 - 1) * 2 ^ 104)"

section \<open>MultiFormatReader\<close>

text \<open>
  The header \<^verbatim>\<open>MultiFormatReader.h\<close> is not among the sources. Its enumerations are read off
  the switches of \<^verbatim>\<open>ReadSamples\<close> and \<^verbatim>\<open>ConvertSamples\<close>; \<open>mEnd\<close> is the endianness of the
  host, which the reader compares with the requested one.
\<close>

type_synonym byte = "8 word"

datatype FormatT = Int8 | Int16 | Int32 | Uint8 | Uint16 | Uint32 | Float | Double

datatype EndiannessT = Little | Big

text \<open>The one exception of the reader: \<^verbatim>\<open>SwapBytes\<close> on a width above 8 bytes.\<close>

datatype fault = UnsupportedWidth | UndefinedBehaviour

text \<open>
  The open file is its bytes and the position of the stream. A position may lie behind the
  end of the file (\<^verbatim>\<open>fseek\<close> allows it); a read there returns nothing.
\<close>

record reader =
  fbytes :: "byte list"
  fpos :: nat
  mEnd :: EndiannessT

text \<open>\<open>store buf off bs\<close> writes \<open>bs\<close> into \<open>buf\<close> from index \<open>off\<close> on.\<close>

definition store :: "'a list \<Rightarrow> nat \<Rightarrow> 'a list \<Rightarrow> 'a list" where
  "store buf off bs = take off buf @ bs @ drop (off + length bs) buf"

text \<open>
  \<^verbatim>\<open>fread(ptr, sz, count, mpFid)\<close>: the bytes delivered, the number of complete items among
  them, and the reader behind them.
\<close>

definition fread :: "nat \<Rightarrow> nat \<Rightarrow> reader \<Rightarrow> byte list \<times> nat \<times> reader" where
  "fread sz count r =
     (let got = take (sz * count) (drop (fpos r) (fbytes r))
      in (got, length got div sz, r\<lparr>fpos := fpos r + length got\<rparr>))"

definition Reset0 :: "reader \<Rightarrow> reader" where
  "Reset0 r = r\<lparr>fpos := 0\<rparr>"

definition Reset :: "nat \<Rightarrow> reader \<Rightarrow> reader" where
  "Reset startoffset r = r\<lparr>fpos := startoffset\<rparr>"

definition Read :: "byte list \<Rightarrow> nat \<Rightarrow> nat \<Rightarrow> nat \<Rightarrow> reader \<Rightarrow> nat \<times> byte list \<times> reader" where
  "Read buffer sz len stride r =
     (if 1 < stride then
        fold (\<lambda>n (actRead, buf, r).
                let (got, k, r') = fread sz 1 r
                in (actRead + k, store buf (n * sz) got,
                    r'\<lparr>fpos := fpos r' + (stride - 1) * sz\<rparr>))
             [0..<len] (0, buffer, r)
      else
        (let (got, k, r') = fread sz len r in (k, store buffer 0 got, r')))"

text \<open>The body of the outer loop of \<^verbatim>\<open>SwapBytes\<close>: group \<open>i\<close> is copied out and written back reversed.\<close>

definition SwapBytes_group :: "nat \<Rightarrow> nat \<Rightarrow> byte list \<Rightarrow> byte list" where
  "SwapBytes_group sz i buf =
     (let cur = i * sz; mSwapBuffer = take sz (drop cur buf)
      in fold (\<lambda>n b. b[cur + n := mSwapBuffer ! (sz - n - 1)]) [0..<sz] buf)"

definition SwapBytes :: "byte list \<Rightarrow> nat \<Rightarrow> nat \<Rightarrow> fault + byte list" where
  "SwapBytes buffer sz len =
     (if 8 < sz then Inl UnsupportedWidth
      else Inr (fold (SwapBytes_group sz) [0..<len] buffer))"

text \<open>One arm of the switch of \<^verbatim>\<open>ReadSamples\<close>: read, then swap if the endianness differs.\<close>

definition ReadSwap :: "byte list \<Rightarrow> nat \<Rightarrow> nat \<Rightarrow> nat \<Rightarrow> bool \<Rightarrow> reader \<Rightarrow>
    fault + (nat \<times> byte list \<times> reader)" where
  "ReadSwap buffer sz len stride swapflag r =
     (let (actRead, buf, r') = Read buffer sz len stride r
      in if swapflag then
           (case SwapBytes buf sz len of
              Inl e \<Rightarrow> Inl e
            | Inr buf' \<Rightarrow> Inr (actRead, buf', r'))
         else Inr (actRead, buf, r'))"

definition ReadSamples :: "byte list \<Rightarrow> nat \<Rightarrow> nat \<Rightarrow> FormatT \<Rightarrow> EndiannessT \<Rightarrow> reader \<Rightarrow>
    fault + (nat \<times> byte list \<times> reader)" where
  "ReadSamples buffer len stride format en r =
     (let swapflag = (mEnd r \<noteq> en)
      in case format of
           Int8 \<Rightarrow> Inr (Read buffer 1 len stride r)
         | Uint8 \<Rightarrow> Inr (Read buffer 1 len stride r)
         | Int16 \<Rightarrow> ReadSwap buffer 2 len stride swapflag r
         | Uint16 \<Rightarrow> ReadSwap buffer 2 len stride swapflag r
         | Int32 \<Rightarrow> ReadSwap buffer 4 len stride swapflag r
         | Uint32 \<Rightarrow> ReadSwap buffer 4 len stride swapflag r
         | Float \<Rightarrow> ReadSwap buffer 4 len stride swapflag r
         | Double \<Rightarrow> ReadSwap buffer 8 len stride swapflag r)"

section \<open>SpecPowerMeter\<close>

text \<open>
  The meter of length \<open>mSigLen\<close>. Its scratch arrays \<^verbatim>\<open>mSigFR\<close> and \<^verbatim>\<open>mSigFI\<close> are the two
  results of the transform and \<^verbatim>\<open>mSigI\<close>, the imaginary input, stays zero. The transform
  \<^verbatim>\<open>FFT\<close> comes from \<^verbatim>\<open>../FFT.h\<close>, which is not among the sources: it is the parameter
  \<open>fft\<close>, from the real and imaginary input to the real and imaginary output.
\<close>

record meter =
  mSigLen :: int
  mSigI :: "fl list"
  mEqEnabled :: bool
  mEqMask :: "fl list"

type_synonym transform = "nat \<Rightarrow> fl list \<Rightarrow> fl list \<Rightarrow> fl list \<times> fl list"

definition SpecPowerMeter :: "nat \<Rightarrow> meter" where
  "SpecPowerMeter sigLen =
     \<lparr>mSigLen = int sigLen, mSigI = replicate sigLen (Fin 0), mEqEnabled = False,
      mEqMask = replicate sigLen (Fin 1)\<rparr>"

definition SetEqualizer :: "fl list \<Rightarrow> nat \<Rightarrow> meter \<Rightarrow> meter" where
  "SetEqualizer eqmask masklen m = m\<lparr>mEqMask := store (mEqMask m) 0 (take masklen eqmask)\<rparr>"

definition EnableEqualizer :: "meter \<Rightarrow> meter" where
  "EnableEqualizer m = m\<lparr>mEqEnabled := True\<rparr>"

definition DisableEqualizer :: "meter \<Rightarrow> meter" where
  "DisableEqualizer m = m\<lparr>mEqEnabled := False\<rparr>"

text \<open>The remainder of C: the quotient is truncated towards zero.\<close>

definition c_rem :: "int \<Rightarrow> int \<Rightarrow> int" where
  "c_rem a b = a - b * (sgn a * sgn b * (\<bar>a\<bar> div \<bar>b\<bar>))"

text \<open>
  \<^verbatim>\<open>Freq2Bin\<close>: the product is formed in double precision (rounding \<open>rdd\<close>), floored, and
  converted to \<^verbatim>\<open>int\<close>; the conversion has no defined result for a value that is not a
  number of the range of \<^verbatim>\<open>int\<close>.
\<close>

definition Freq2Bin :: "rounding \<Rightarrow> meter \<Rightarrow> fl \<Rightarrow> fault + int" where
  "Freq2Bin rdd m fc =
     (case fmul rdd fc (Fin (of_int (mSigLen m))) of
        Fin v \<Rightarrow>
          if - (2 ^ 31) \<le> \<lfloor>v\<rfloor> \<and> \<lfloor>v\<rfloor> < 2 ^ 31 \<and> mSigLen m \<noteq> 0
          then Inr (c_rem \<lfloor>v\<rfloor> (mSigLen m))
          else Inl UndefinedBehaviour
      | _ \<Rightarrow> Inl UndefinedBehaviour)"

text \<open>
  The two loops of \<^verbatim>\<open>CalcBinPower\<close>, over the bins from \<open>loBin\<close> up to \<open>hiBin - 1\<close> of
  arrays \<open>mSigLen\<close> long. A bin outside the arrays has no defined value in the C++.
\<close>

definition CalcBinPower :: "rounding \<Rightarrow> meter \<Rightarrow> fl list \<Rightarrow> fl list \<Rightarrow> int \<Rightarrow> int \<Rightarrow> fault + fl" where
  "CalcBinPower rd m sig_f_r sig_f_i loBin hiBin =
     (if loBin < hiBin \<and> (loBin < 0 \<or> mSigLen m < hiBin) then Inl UndefinedBehaviour
      else if mEqEnabled m then
        Inr (fold (\<lambda>n pwr.
                let re = fmul rd (sig_f_r ! nat n) (mEqMask m ! nat n);
                    im = fmul rd (sig_f_i ! nat n) (mEqMask m ! nat n)
                in fadd rd pwr (fadd rd (fmul rd re re) (fmul rd im im)))
             [loBin..hiBin - 1] (Fin 0))
      else
        Inr (fold (\<lambda>n pwr.
                fadd rd pwr (fadd rd (fmul rd (sig_f_r ! nat n) (sig_f_r ! nat n))
                                     (fmul rd (sig_f_i ! nat n) (sig_f_i ! nat n))))
             [loBin..hiBin - 1] (Fin 0)))"

definition CalcPower :: "rounding \<Rightarrow> rounding \<Rightarrow> transform \<Rightarrow> meter \<Rightarrow> fl list \<Rightarrow> fl \<Rightarrow> fl \<Rightarrow>
    fault + fl" where
  "CalcPower rd rdd fft m sig fc bw =
     (case Freq2Bin rdd m (fsub rd fc (fdiv rd bw (Fin 2))) of
        Inl e \<Rightarrow> Inl e
      | Inr loBin \<Rightarrow>
          (case Freq2Bin rdd m (fadd rd fc (fdiv rd bw (Fin 2))) of
             Inl e \<Rightarrow> Inl e
           | Inr hiBin0 \<Rightarrow>
               let hiBin = (if loBin = hiBin0 then loBin + 1 else hiBin0);
                   (mSigFR, mSigFI) =
                     fft (nat (mSigLen m)) (take (nat (mSigLen m)) sig) (mSigI m)
               in CalcBinPower rd m mSigFR mSigFI loBin hiBin))"

section \<open>FormatClassifier\<close>

record FormatClassT =
  format :: FormatT
  endian :: EndiannessT

definition cSiglen :: nat where "cSiglen = 1024"
definition cRawSiglen :: nat where "cRawSiglen = 8 * cSiglen"
definition cPolyTaps :: nat where "cPolyTaps = 4"
definition cNumInts :: nat where "cNumInts = 32"
definition cDitherF1 :: "rounding \<Rightarrow> fl" where "cDitherF1 rd = rd (31 / 100)"
definition cDitherF2 :: "rounding \<Rightarrow> fl" where "cDitherF2 rd = rd (42 / 100)"
definition cDitherA :: fl where "cDitherA = Fin 12"
definition cMinRms :: "rounding \<Rightarrow> fl" where "cMinRms rd = rd (1 / 10 ^ 12)"
definition cSigSearchGridSize :: nat where "cSigSearchGridSize = 32"
definition cHeaderSkip :: nat where "cHeaderSkip = 1024"
definition mFiltSiglen :: nat where "mFiltSiglen = cSiglen div cPolyTaps"

record classifier =
  mClasses :: "FormatClassT list"
  mReader :: reader
  mMeter :: meter
  mSigBuffer :: "fl list"
  mAuxBuffer :: "fl list"
  mWinBuffer :: "fl list"
  mEqBuffer :: "fl list"
  mRawBuffer :: "byte list"
  mSignalStart :: nat
  mPLo :: "fl list"
  mPHiM :: "fl list"
  mPHiS :: "fl list"
  mMonoFeat :: "fl list"
  mStereoFeat :: "fl list"
  mResultFormat :: FormatClassT
  mResultChannels :: int

subsection \<open>The math kernels\<close>

text \<open>
  Each kernel is a counted loop over the first \<open>len\<close> elements of an array, here a fold over
  the indices. The arrays are lists at least \<open>len\<close> long.
\<close>

definition Add :: "rounding \<Rightarrow> fl list \<Rightarrow> fl list \<Rightarrow> nat \<Rightarrow> fl list" where
  "Add rd in1 in2 len = fold (\<lambda>n a. a[n := fadd rd (a ! n) (in2 ! n)]) [0..<len] in1"

definition Sub :: "rounding \<Rightarrow> fl list \<Rightarrow> fl \<Rightarrow> nat \<Rightarrow> fl list" where
  "Sub rd inp subt len = fold (\<lambda>n a. a[n := fsub rd (a ! n) subt]) [0..<len] inp"

definition Div :: "rounding \<Rightarrow> fl list \<Rightarrow> fl \<Rightarrow> nat \<Rightarrow> fl list" where
  "Div rd inp d len = fold (\<lambda>n a. a[n := fdiv rd (a ! n) d]) [0..<len] inp"

definition Mean :: "rounding \<Rightarrow> fl list \<Rightarrow> nat \<Rightarrow> fl" where
  "Mean rd inp len =
     fdiv rd (fold (\<lambda>n mean. fadd rd mean (inp ! n)) [0..<len] (Fin 0)) (rd (real len))"

definition Max' :: "fl list \<Rightarrow> nat \<Rightarrow> fl \<times> nat" where
  "Max' inp len =
     fold (\<lambda>n (mx, maxidx). if fgt (inp ! n) mx then (inp ! n, n) else (mx, maxidx))
          [0..<len] (fneg FLT_MAX, 0)"

definition Rms :: "rounding \<Rightarrow> fl list \<Rightarrow> nat \<Rightarrow> fl" where
  "Rms rd inp len =
     fsqrt rd (fold (\<lambda>n rms. fadd rd rms (fmul rd (inp ! n) (inp ! n))) [0..<len] (Fin 0))"

text \<open>\<^verbatim>\<open>FilterPolyphase\<close> windows \<open>x\<close> in place and folds it into \<open>y\<close>; it returns both.\<close>

definition FilterPolyphase :: "rounding \<Rightarrow> fl list \<Rightarrow> fl list \<Rightarrow> fl list \<Rightarrow> nat \<Rightarrow> nat \<Rightarrow>
    fl list \<times> fl list" where
  "FilterPolyphase rd x y win p len =
     (let outlen = len div p;
          x1 = fold (\<lambda>n x. x[n := fmul rd (x ! n) (win ! n)]) [0..<len] x;
          y1 = fold (\<lambda>n y. y[n := Fin 0]) [0..<outlen] y;
          y2 = fold (\<lambda>n y. Add rd y (drop (n * outlen) x1) outlen) [0..<p] y1
      in (x1, y2))"

subsection \<open>The equalizer mask\<close>

text \<open>One pass of the loop of \<^verbatim>\<open>CalcEqualizerMask\<close>, for the index \<open>n\<close>.\<close>

definition CalcEqualizerMask_pass :: "rounding \<Rightarrow> nat \<Rightarrow> fl \<Rightarrow> fl \<Rightarrow> fl \<Rightarrow> nat \<Rightarrow> fl list \<Rightarrow>
    fl list" where
  "CalcEqualizerMask_pass rd len fLen A m n buffer =
     (let f = fdiv rd (rd (real n)) fLen;
          b1 = (if flt f (cDitherF1 rd) then buffer[n := Fin 1] else buffer);
          b2 = (if fge f (cDitherF1 rd) \<and> flt f (cDitherF2 rd)
                then b1[n := fadd rd (fmul rd m (fsub rd f (cDitherF1 rd))) (Fin 1)]
                else b1);
          b3 = (if fge f (cDitherF2 rd) then b2[n := A] else b2)
      in b3[len - n - 1 := b3 ! n])"

definition CalcEqualizerMask :: "rounding \<Rightarrow> fl list \<Rightarrow> nat \<Rightarrow> fl list" where
  "CalcEqualizerMask rd buffer len =
     (let fLen = rd (real len);
          len2 = len div 2;
          A = fpow rd (Fin 10) (fdiv rd (fneg cDitherA) (Fin 20));
          m = fdiv rd (fsub rd A (Fin 1)) (fsub rd (cDitherF2 rd) (cDitherF1 rd))
      in fold (CalcEqualizerMask_pass rd len fLen A m) [0..<len2] buffer)"

text \<open>What a pass leaves at its index, given the element it finds there.\<close>

definition mask_value :: "rounding \<Rightarrow> fl \<Rightarrow> fl \<Rightarrow> fl \<Rightarrow> nat \<Rightarrow> fl \<Rightarrow> fl" where
  "mask_value rd fLen A m n old =
     (let f = fdiv rd (rd (real n)) fLen;
          v1 = (if flt f (cDitherF1 rd) then Fin 1 else old);
          v2 = (if fge f (cDitherF1 rd) \<and> flt f (cDitherF2 rd)
                then fadd rd (fmul rd m (fsub rd f (cDitherF1 rd))) (Fin 1) else v1)
      in if fge f (cDitherF2 rd) then A else v2)"

subsection \<open>Conversion of raw samples\<close>

text \<open>
  A sample of the raw buffer is a group of bytes, read through a typed pointer, that is, in
  the byte order of the host. \<open>ieee\<close> is the value of an IEEE bit pattern with \<open>eb\<close> exponent
  bits and \<open>mb\<close> fraction bits.
\<close>

definition host_value :: "EndiannessT \<Rightarrow> byte list \<Rightarrow> nat" where
  "host_value h bs = foldr (\<lambda>b v. unat b + 256 * v) (if h = Little then bs else rev bs) 0"

definition to_signed :: "nat \<Rightarrow> nat \<Rightarrow> int" where
  "to_signed bits u = (if u < 2 ^ (bits - 1) then int u else int u - 2 ^ bits)"

definition ieee :: "nat \<Rightarrow> nat \<Rightarrow> nat \<Rightarrow> fl" where
  "ieee eb mb u =
     (let frac = u mod 2 ^ mb;
          ex = (u div 2 ^ mb) mod 2 ^ eb;
          neg = (u div 2 ^ (mb + eb)) mod 2 = 1;
          bias = 2 ^ (eb - 1) - 1;
          mag = (if ex = 0 then real frac * pow2 (1 - int bias - int mb)
                 else real (2 ^ mb + frac) * pow2 (int ex - int bias - int mb))
      in if ex = 2 ^ eb - 1 then (if frac \<noteq> 0 then NaN else if neg then NInf else PInf)
         else Fin (if neg then - mag else mag))"

text \<open>The cast \<^verbatim>\<open>(float)\<close> of a double: a number is rounded, the other values stay.\<close>

definition to_float :: "rounding \<Rightarrow> fl \<Rightarrow> fl" where
  "to_float rd v = (case v of Fin x \<Rightarrow> rd x | _ \<Rightarrow> v)"

text \<open>\<^verbatim>\<open>ToFloat\<close> at an element type of \<open>w\<close> bytes whose cast to \<^verbatim>\<open>float\<close> is \<open>cast\<close>.\<close>

definition ToFloat :: "nat \<Rightarrow> (byte list \<Rightarrow> fl) \<Rightarrow> byte list \<Rightarrow> fl list \<Rightarrow> nat \<Rightarrow> fl list" where
  "ToFloat w cast inp out len =
     fold (\<lambda>n out. out[n := cast (take w (drop (n * w) inp))]) [0..<len] out"

definition ConvertSamples :: "rounding \<Rightarrow> EndiannessT \<Rightarrow> byte list \<Rightarrow> fl list \<Rightarrow> FormatClassT \<Rightarrow>
    fl list" where
  "ConvertSamples rd h inp out fmt =
     (case format fmt of
        Int8 \<Rightarrow> ToFloat 1 (\<lambda>bs. rd (of_int (to_signed 8 (host_value h bs)))) inp out cSiglen
      | Int16 \<Rightarrow> ToFloat 2 (\<lambda>bs. rd (of_int (to_signed 16 (host_value h bs)))) inp out cSiglen
      | Int32 \<Rightarrow> ToFloat 4 (\<lambda>bs. rd (of_int (to_signed 32 (host_value h bs)))) inp out cSiglen
      | Uint8 \<Rightarrow> ToFloat 1 (\<lambda>bs. rd (real (host_value h bs))) inp out cSiglen
      | Uint16 \<Rightarrow> ToFloat 2 (\<lambda>bs. rd (real (host_value h bs))) inp out cSiglen
      | Uint32 \<Rightarrow> ToFloat 4 (\<lambda>bs. rd (real (host_value h bs))) inp out cSiglen
      | Float \<Rightarrow> ToFloat 4 (\<lambda>bs. ieee 8 23 (host_value h bs)) inp out cSiglen
      | Double \<Rightarrow> ToFloat 8 (\<lambda>bs. to_float rd (ieee 11 52 (host_value h bs))) inp out cSiglen)"

subsection \<open>Signal search and integration\<close>

text \<open>A counted loop whose body can raise: the first fault ends it.\<close>

fun for_each :: "('a \<Rightarrow> 's \<Rightarrow> fault + 's) \<Rightarrow> 'a list \<Rightarrow> 's \<Rightarrow> fault + 's" where
  "for_each body [] s = Inr s"
| "for_each body (n # ns) s = (case body n s of Inl e \<Rightarrow> Inl e | Inr s' \<Rightarrow> for_each body ns s')"

definition testFormat :: FormatClassT where
  "testFormat = \<lparr>format = Uint8, endian = Little\<rparr>"

text \<open>
  The inner loop of \<^verbatim>\<open>FindSignalStart\<close>: \<open>cSigSearchGridSize\<close> reads of one window each, of
  which the last one counts. \<open>FindSignalStart_read\<close> is one of them.
\<close>

definition FindSignalStart_read :: "nat \<times> classifier \<Rightarrow> fault + (nat \<times> classifier)" where
  "FindSignalStart_read = (\<lambda>(actRead, st).
     case ReadSamples (mRawBuffer st) cSiglen 1 (format testFormat) (endian testFormat)
            (mReader st) of
       Inl e \<Rightarrow> Inl e
     | Inr (actRead', raw, r) \<Rightarrow> Inr (actRead', st\<lparr>mRawBuffer := raw, mReader := r\<rparr>))"

definition FindSignalStart_skip :: "nat \<Rightarrow> classifier \<Rightarrow> fault + (nat \<times> classifier)" where
  "FindSignalStart_skip actRead st =
     for_each (\<lambda>n. FindSignalStart_read) [0..<cSigSearchGridSize] (actRead, st)"

text \<open>
  The while loop of \<^verbatim>\<open>FindSignalStart\<close>, from its test on; the result is \<open>signalFound\<close>, \<open>i\<close>
  and the state.
\<close>

function FindSignalStart_loop :: "rounding \<Rightarrow> nat \<Rightarrow> fl \<Rightarrow> nat \<Rightarrow> classifier \<Rightarrow>
    fault + (bool \<times> nat \<times> classifier)" where
  "FindSignalStart_loop rd actRead rms i st =
     (if actRead = cSiglen \<and> \<not> fne rms rms then
        (let rms' = Rms rd (mSigBuffer st) 64
         in if fge rms' (cMinRms rd) then Inr (True, i, st)
            else
              (case FindSignalStart_skip actRead st of
                 Inl e \<Rightarrow> Inl e
               | Inr (actRead', st1) \<Rightarrow>
                   if actRead' = cSiglen
                   then FindSignalStart_loop rd actRead' rms' (i + 1)
                          (st1\<lparr>mSigBuffer := ConvertSamples rd (mEnd (mReader st1)) (mRawBuffer st1)
                                               (mSigBuffer st1) testFormat\<rparr>)
                   else FindSignalStart_loop rd actRead' rms' i st1))
      else Inr (False, i, st))"
  by pat_completeness auto

text \<open>
  The loop ends: a pass that goes on has read a full window, so the stream has advanced
  inside the file.
\<close>

lemma for_each_append:
  "for_each body (ns @ ms) s =
     (case for_each body ns s of Inl e \<Rightarrow> Inl e | Inr s' \<Rightarrow> for_each body ms s')"
  by (induction ns arbitrary: s) (auto split: sum.splits)

lemma Read_linear:
  "Read buffer sz len (Suc 0) r =
     (let got = take (sz * len) (drop (fpos r) (fbytes r))
      in (length got div sz, store buffer 0 got, r\<lparr>fpos := fpos r + length got\<rparr>))"
  by (simp add: Read_def fread_def Let_def)

lemma FindSignalStart_read_eq:
  "FindSignalStart_read (a, st) =
     (let r = mReader st; got = take cSiglen (drop (fpos r) (fbytes r))
      in Inr (length got, st\<lparr>mRawBuffer := store (mRawBuffer st) 0 got,
                              mReader := r\<lparr>fpos := fpos r + length got\<rparr>\<rparr>))"
  by (simp add: FindSignalStart_read_def ReadSamples_def testFormat_def Read_linear Let_def)

lemma FindSignalStart_reads_mono:
  "for_each (\<lambda>n. FindSignalStart_read) ns (a, st) = Inr (a', st') \<Longrightarrow>
     fbytes (mReader st') = fbytes (mReader st) \<and> fpos (mReader st) \<le> fpos (mReader st')"
proof (induction ns arbitrary: a st)
  case Nil
  then show ?case by simp
next
  case (Cons n ns)
  then show ?case
    by (fastforce simp: FindSignalStart_read_eq Let_def)
qed

lemma FindSignalStart_read_full:
  assumes "FindSignalStart_read (a, st) = Inr (a', st')" and "a' = cSiglen"
  shows "fpos (mReader st) + cSiglen \<le> fpos (mReader st')
         \<and> fpos (mReader st') \<le> length (fbytes (mReader st'))"
  using assms by (auto simp: FindSignalStart_read_eq Let_def cSiglen_def)

lemma FindSignalStart_skip_full:
  assumes "FindSignalStart_skip a st = Inr (a', st')" and "a' = cSiglen"
  shows "fbytes (mReader st') = fbytes (mReader st)
         \<and> fpos (mReader st) + cSiglen \<le> fpos (mReader st')
         \<and> fpos (mReader st') \<le> length (fbytes (mReader st))"
proof -
  have u: "[0..<cSigSearchGridSize] = [0..<31] @ [31]"
    using upt_Suc_append[of 0 31] by (simp add: cSigSearchGridSize_def)
  from assms(1) obtain a1 st1 where
    f: "for_each (\<lambda>n. FindSignalStart_read) [0..<31] (a, st) = Inr (a1, st1)"
    and l: "FindSignalStart_read (a1, st1) = Inr (a', st')"
    unfolding FindSignalStart_skip_def u for_each_append
    by (auto split: sum.splits)
  from FindSignalStart_reads_mono[OF f] have m1: "fbytes (mReader st1) = fbytes (mReader st)"
    and m2: "fpos (mReader st) \<le> fpos (mReader st1)" by auto
  from l have m3: "fbytes (mReader st') = fbytes (mReader st1)"
    by (auto simp: FindSignalStart_read_eq Let_def)
  from FindSignalStart_read_full[OF l assms(2)] m1 m2 m3 show ?thesis by auto
qed

termination FindSignalStart_loop
  apply (relation "measure (\<lambda>(rd, actRead, rms, i, st).
         if actRead = cSiglen
         then Suc (length (fbytes (mReader st)) - fpos (mReader st)) else 0)")
    apply simp
   apply (auto dest!: FindSignalStart_skip_full simp: cSiglen_def)
  done

definition FindSignalStart :: "rounding \<Rightarrow> classifier \<Rightarrow> fault + classifier" where
  "FindSignalStart rd st =
     (case ReadSamples (mRawBuffer st) cHeaderSkip 1 Uint8 Little (Reset0 (mReader st)) of
        Inl e \<Rightarrow> Inl e
      | Inr (skipped, raw1, r1) \<Rightarrow>
          (case ReadSamples (store raw1 0 (replicate cRawSiglen 0)) cSiglen 1
                  (format testFormat) (endian testFormat) r1 of
             Inl e \<Rightarrow> Inl e
           | Inr (actRead, raw2, r2) \<Rightarrow>
               (case FindSignalStart_loop rd actRead (Fin 0) 0
                       (st\<lparr>mRawBuffer := raw2, mReader := r2,
                           mSigBuffer := ConvertSamples rd (mEnd r2) raw2 (mSigBuffer st) testFormat\<rparr>) of
                  Inl e \<Rightarrow> Inl e
                | Inr (signalFound, i, st') \<Rightarrow>
                    Inr (st'\<lparr>mSignalStart :=
                           (if signalFound then cHeaderSkip + i * cSigSearchGridSize * cSiglen
                            else cHeaderSkip)\<rparr>))))"

text \<open>
  One pass through the body of the do-while loop of \<^verbatim>\<open>ReadSignal\<close>, for the counter \<open>n\<close>;
  the result is \<open>actRead\<close> and the state.
\<close>

definition ReadSignal_body :: "rounding \<Rightarrow> FormatClassT \<Rightarrow> nat \<Rightarrow> nat \<Rightarrow> classifier \<Rightarrow>
    fault + (nat \<times> classifier)" where
  "ReadSignal_body rd fmt stride n st =
     (case ReadSamples (mRawBuffer st) cSiglen stride (format fmt) (endian fmt) (mReader st) of
        Inl e \<Rightarrow> Inl e
      | Inr (actRead, raw, r) \<Rightarrow>
          if n = 0 then
            Inr (actRead, st\<lparr>mRawBuffer := raw, mReader := r,
                            mSigBuffer := ConvertSamples rd (mEnd r) raw (mSigBuffer st) fmt\<rparr>)
          else if actRead = cSiglen then
            (let aux = ConvertSamples rd (mEnd r) raw (mAuxBuffer st) fmt;
                 sig = Add rd (mSigBuffer st) aux cSiglen
             in case ReadSamples raw (n + 1) stride (format fmt) (endian fmt) r of
                  Inl e \<Rightarrow> Inl e
                | Inr (dummy, raw', r') \<Rightarrow>
                    Inr (actRead, st\<lparr>mRawBuffer := raw', mReader := r',
                                    mAuxBuffer := aux, mSigBuffer := sig\<rparr>))
          else Inr (actRead, st\<lparr>mRawBuffer := raw, mReader := r\<rparr>))"

function ReadSignal_loop :: "rounding \<Rightarrow> FormatClassT \<Rightarrow> nat \<Rightarrow> nat \<Rightarrow> classifier \<Rightarrow>
    fault + classifier" where
  "ReadSignal_loop rd fmt stride n st =
     (case ReadSignal_body rd fmt stride n st of
        Inl e \<Rightarrow> Inl e
      | Inr (actRead, st') \<Rightarrow>
          if n + 1 < cNumInts \<and> actRead = cSiglen
          then ReadSignal_loop rd fmt stride (n + 1) st'
          else Inr st')"
  by pat_completeness auto
termination
  by (relation "measure (\<lambda>(rd, fmt, stride, n, st). cNumInts - n)") auto

definition ReadSignal :: "rounding \<Rightarrow> FormatClassT \<Rightarrow> nat \<Rightarrow> classifier \<Rightarrow> fault + classifier" where
  "ReadSignal rd fmt stride st =
     ReadSignal_loop rd fmt stride 0 (st\<lparr>mReader := Reset (mSignalStart st) (mReader st)\<rparr>)"

subsection \<open>The candidate sweep\<close>

text \<open>The ten classes the constructor enters into \<open>mClasses\<close>, in its order.\<close>

definition candidates :: "FormatClassT list" where
  "candidates =
     map (\<lambda>f. \<lparr>format = f, endian = Little\<rparr>) [Int8, Int16, Uint8, Float, Double]
     @ map (\<lambda>f. \<lparr>format = f, endian = Big\<rparr>) [Int8, Int16, Uint8, Float, Double]"

text \<open>
  The preprocessing both loops of \<^verbatim>\<open>Run\<close> apply to the signal read: polyphase filter, removal
  of the mean, division by the Rms value.
\<close>

definition Preprocess :: "rounding \<Rightarrow> classifier \<Rightarrow> classifier" where
  "Preprocess rd st =
     (let (x, y) = FilterPolyphase rd (mSigBuffer st) (mAuxBuffer st) (mWinBuffer st)
                     cPolyTaps cSiglen;
          smean = Mean rd y mFiltSiglen;
          y1 = Sub rd y smean mFiltSiglen;
          rms = Rms rd y1 mFiltSiglen;
          y2 = Div rd y1 rms mFiltSiglen
      in st\<lparr>mSigBuffer := x, mAuxBuffer := y2\<rparr>)"

definition Run_mono :: "rounding \<Rightarrow> rounding \<Rightarrow> transform \<Rightarrow> nat \<Rightarrow> classifier \<Rightarrow>
    fault + classifier" where
  "Run_mono rd rdd fft n st =
     (case ReadSignal rd (mClasses st ! n) 1 st of
        Inl e \<Rightarrow> Inl e
      | Inr st1 \<Rightarrow>
          let st2 = Preprocess rd st1
          in case CalcPower rd rdd fft (mMeter st2) (mAuxBuffer st2) (Fin (1 / 4)) (Fin (1 / 2)) of
               Inl e \<Rightarrow> Inl e
             | Inr pLo \<Rightarrow>
                 (case CalcPower rd rdd fft (mMeter st2) (mAuxBuffer st2)
                         (rd (45 / 100)) (rd (1 / 10)) of
                    Inl e \<Rightarrow> Inl e
                  | Inr pHiM \<Rightarrow>
                      let st3 = st2\<lparr>mPLo := mPLo st2 @ [pLo], mPHiM := mPHiM st2 @ [pHiM]\<rparr>
                      in Inr (st3\<lparr>mMonoFeat :=
                                (mMonoFeat st3)[n := fdiv rd (mPLo st3 ! n) (mPHiM st3 ! n)]\<rparr>)))"

definition Run_stereo :: "rounding \<Rightarrow> rounding \<Rightarrow> transform \<Rightarrow> nat \<Rightarrow> classifier \<Rightarrow>
    fault + classifier" where
  "Run_stereo rd rdd fft n st =
     (case ReadSignal rd (mClasses st ! n) 2 st of
        Inl e \<Rightarrow> Inl e
      | Inr st1 \<Rightarrow>
          let st2 = Preprocess rd st1
          in case CalcPower rd rdd fft (mMeter st2) (mAuxBuffer st2)
                    (rd (40 / 100)) (rd (2 / 10)) of
               Inl e \<Rightarrow> Inl e
             | Inr pHiS \<Rightarrow>
                 let st3 = st2\<lparr>mPHiS := mPHiS st2 @ [pHiS]\<rparr>
                 in Inr (st3\<lparr>mStereoFeat :=
                           (mStereoFeat st3)[n := fdiv rd (mPLo st3 ! n) (mPHiS st3 ! n)]\<rparr>))"

text \<open>The end of \<^verbatim>\<open>Run\<close>: the two maxima and the choice between them.\<close>

definition Run_result :: "classifier \<Rightarrow> classifier" where
  "Run_result st =
     (let (monoMax, midx) = Max' (mMonoFeat st) (length (mClasses st));
          (stereoMax, sidx) = Max' (mStereoFeat st) (length (mClasses st))
      in if fgt monoMax stereoMax
         then st\<lparr>mResultChannels := 1, mResultFormat := mClasses st ! midx\<rparr>
         else st\<lparr>mResultChannels := 2, mResultFormat := mClasses st ! sidx\<rparr>)"

definition Run :: "rounding \<Rightarrow> rounding \<Rightarrow> transform \<Rightarrow> classifier \<Rightarrow> fault + classifier" where
  "Run rd rdd fft st =
     (let st0 = st\<lparr>mPLo := [], mPHiM := [], mPHiS := [],
                   mMeter := EnableEqualizer (mMeter st)\<rparr>
      in case for_each (Run_mono rd rdd fft) [0..<length (mClasses st0)] st0 of
           Inl e \<Rightarrow> Inl e
         | Inr st1 \<Rightarrow>
             (case for_each (Run_stereo rd rdd fft) [0..<length (mClasses st1)]
                     (st1\<lparr>mMeter := DisableEqualizer (mMeter st1)\<rparr>) of
                Inl e \<Rightarrow> Inl e
              | Inr st2 \<Rightarrow> Inr (Run_result st2)))"

text \<open>
  The state the constructor sets up before it searches the signal start: the buffers at their
  working sizes, the ten classes, the reader at the start of the file \<open>bytes\<close>. The feature
  arrays are fresh memory, whose contents are the parameters \<open>monoFeat\<close> and \<open>stereoFeat\<close>;
  the result fields are not yet set.
\<close>

definition FormatClassifier_new :: "byte list \<Rightarrow> EndiannessT \<Rightarrow> fl list \<Rightarrow> fl list \<Rightarrow> classifier" where
  "FormatClassifier_new bytes host monoFeat stereoFeat =
     \<lparr>mClasses = candidates,
      mReader = \<lparr>fbytes = bytes, fpos = 0, mEnd = host\<rparr>,
      mMeter = SpecPowerMeter mFiltSiglen,
      mSigBuffer = replicate cSiglen (Fin 0),
      mAuxBuffer = replicate cSiglen (Fin 0),
      mWinBuffer = replicate cSiglen (Fin 0),
      mEqBuffer = replicate mFiltSiglen (Fin 0),
      mRawBuffer = replicate cRawSiglen 0,
      mSignalStart = cHeaderSkip,
      mPLo = [], mPHiM = [], mPHiS = [],
      mMonoFeat = monoFeat, mStereoFeat = stereoFeat,
      mResultFormat = \<lparr>format = Int8, endian = Little\<rparr>,
      mResultChannels = 0\<rparr>"

text \<open>
  The squared magnitude of bin \<open>n\<close> of a spectrum, equalized when the mask is enabled: what one
  pass of a loop of \<^verbatim>\<open>CalcBinPower\<close> adds to the power.
\<close>

definition bin_power :: "rounding \<Rightarrow> meter \<Rightarrow> fl list \<Rightarrow> fl list \<Rightarrow> nat \<Rightarrow> fl" where
  "bin_power rd m fr fi n =
     (let g = (if mEqEnabled m then mEqMask m ! n else Fin 1);
          re = (if mEqEnabled m then fmul rd (fr ! n) g else fr ! n);
          im = (if mEqEnabled m then fmul rd (fi ! n) g else fi ! n)
      in fadd rd (fmul rd re re) (fmul rd im im))"


fun is_fin :: "fl \<Rightarrow> bool" where
  "is_fin (Fin x) = True"
| "is_fin a = False"

text \<open>
  The windows that \<^verbatim>\<open>ReadSignal\<close> is described to add to the first one, for the iteration
  indices \<open>ks\<close>: at index \<open>k\<close> a window of \<open>cSiglen\<close> samples is read; a full one is converted
  and counted, and followed by a read of \<open>k + 1\<close> samples that is thrown away; a short one
  ends the integration. \<open>raw\<close>, \<open>r\<close> and \<open>aux\<close> are the raw buffer, the reader and the auxiliary
  buffer before the read.
\<close>

fun spec_added_windows :: "rounding \<Rightarrow> FormatClassT \<Rightarrow> nat \<Rightarrow> nat list \<Rightarrow> byte list \<Rightarrow> reader \<Rightarrow>
    fl list \<Rightarrow> fl list list" where
  "spec_added_windows rd fmt stride [] raw r aux = []"
| "spec_added_windows rd fmt stride (k # ks) raw r aux =
     (case ReadSamples raw cSiglen stride (format fmt) (endian fmt) r of
        Inl e \<Rightarrow> []
      | Inr (actRead, raw1, r1) \<Rightarrow>
          if actRead = cSiglen then
            (let w = ConvertSamples rd (mEnd r1) raw1 aux fmt
             in case ReadSamples raw1 (k + 1) stride (format fmt) (endian fmt) r1 of
                  Inl e \<Rightarrow> []
                | Inr (thrown, raw2, r2) \<Rightarrow> w # spec_added_windows rd fmt stride ks raw2 r2 w)
          else [])"


text \<open>
  The windows that \<^verbatim>\<open>FindSignalStart\<close> is described to probe: window \<open>i\<close> is the \<open>cSiglen\<close>
  bytes of the file behind the header and \<open>i\<close> blocks of \<open>cSigSearchGridSize\<close> windows, and
  its Rms value is taken over its first 64 bytes as unsigned 8-bit samples.
\<close>

definition spec_probe_window :: "byte list \<Rightarrow> nat \<Rightarrow> byte list" where
  "spec_probe_window bytes i =
     take cSiglen (drop (cHeaderSkip + i * cSigSearchGridSize * cSiglen) bytes)"

definition spec_probe_rms :: "rounding \<Rightarrow> byte list \<Rightarrow> nat \<Rightarrow> fl" where
  "spec_probe_rms rd bytes i = Rms rd (map (\<lambda>b. rd (real (unat b))) (spec_probe_window bytes i)) 64"

text \<open>
  The state of the search when window \<open>i\<close> of the file \<open>bytes\<close> has been read in full and
  converted: the stream stands behind the window and the signal buffer starts with its
  samples.
\<close>

definition probed :: "rounding \<Rightarrow> byte list \<Rightarrow> nat \<Rightarrow> classifier \<Rightarrow> bool" where
  "probed rd bytes i st \<longleftrightarrow>
     length (spec_probe_window bytes i) = cSiglen
     \<and> fbytes (mReader st) = bytes
     \<and> fpos (mReader st) = cHeaderSkip + i * cSigSearchGridSize * cSiglen + cSiglen
     \<and> cSiglen \<le> length (mRawBuffer st)
     \<and> cSiglen \<le> length (mSigBuffer st)
     \<and> (\<forall>n<64. mSigBuffer st ! n = rd (real (unat (spec_probe_window bytes i ! n))))"

section \<open>Byte swap\<close>

lemma swap_inner_length:
  "length (fold (\<lambda>n b. b[cur + n := f n]) [0..<k] b) = length b"
  by (induction k) auto

lemma swap_inner_nth:
  "j < length b \<Longrightarrow>
   fold (\<lambda>n b. b[cur + n := f n]) [0..<k] b ! j =
     (if cur \<le> j \<and> j < cur + k then f (j - cur) else b ! j)"
proof (induction k)
  case 0
  then show ?case by auto
next
  case (Suc k)
  have "j = cur + k \<Longrightarrow> j - cur = k" by simp
  then show ?case
    using Suc swap_inner_length[of cur f k b] by (auto simp: nth_list_update less_Suc_eq)
qed

lemma SwapBytes_group_length: "length (SwapBytes_group sz i buf) = length buf"
  by (simp add: SwapBytes_group_def Let_def swap_inner_length)

lemma SwapBytes_group_nth:
  assumes "i * sz + sz \<le> length buf" and "j < length buf"
  shows "SwapBytes_group sz i buf ! j =
     (if i * sz \<le> j \<and> j < i * sz + sz then buf ! (i * sz + (sz - 1 - (j - i * sz)))
      else buf ! j)"
  unfolding SwapBytes_group_def Let_def
  using assms by (subst swap_inner_nth) (auto simp: algebra_simps)

lemma swap_groups_length: "length (fold (SwapBytes_group sz) [0..<len] buf) = length buf"
  by (induction len) (auto simp: SwapBytes_group_length)

lemma swap_groups_nth:
  assumes "len * sz \<le> length buf" and "j < length buf"
  shows "fold (SwapBytes_group sz) [0..<len] buf ! j =
     (if j < len * sz then buf ! ((j div sz) * sz + (sz - 1 - j mod sz)) else buf ! j)"
  using assms
proof (induction len arbitrary: j)
  case 0
  then show ?case by simp
next
  case (Suc len)
  let ?b = "fold (SwapBytes_group sz) [0..<len] buf"
  have l: "length ?b = length buf" by (rule swap_groups_length)
  have b1: "len * sz + sz \<le> length ?b" using Suc.prems l by (simp add: algebra_simps)
  have b0: "len * sz \<le> length buf" using Suc.prems by simp
  have st: "fold (SwapBytes_group sz) [0..<Suc len] buf ! j =
      (if len * sz \<le> j \<and> j < len * sz + sz
       then ?b ! (len * sz + (sz - 1 - (j - len * sz))) else ?b ! j)"
    using SwapBytes_group_nth[OF b1, of j] Suc.prems l by simp
  show ?case
  proof (cases "len * sz \<le> j \<and> j < len * sz + sz")
    case True
    then have szp: "0 < sz" by (cases sz) auto
    from True have d: "j div sz = len"
      by (intro div_nat_eqI) (simp_all add: mult.commute)
    have m: "j mod sz = j - len * sz"
      using d minus_div_mult_eq_mod[of j sz] by simp
    have idx: "len * sz + (sz - 1 - (j - len * sz)) < length buf"
    proof -
      have "len * sz + sz \<le> length buf" using Suc.prems(1) by (simp add: algebra_simps)
      then show ?thesis using True szp by linarith
    qed
    have ge: "\<not> len * sz + (sz - 1 - (j - len * sz)) < len * sz" by simp
    show ?thesis using st True d m Suc.IH[OF b0 idx] ge by (simp add: algebra_simps)
  next
    case False
    show ?thesis
    proof (cases "j < len * sz")
      case True
      then show ?thesis using st False Suc.IH[OF b0 Suc.prems(2)] by (simp add: algebra_simps)
    next
      case f2: False
      then show ?thesis
        using st False Suc.IH[OF b0 Suc.prems(2)] by (auto simp add: algebra_simps)
    qed
  qed
qed

lemma swap_groups_twice:
  assumes "len * sz \<le> length buf"
  shows "fold (SwapBytes_group sz) [0..<len] (fold (SwapBytes_group sz) [0..<len] buf) = buf"
proof (rule nth_equalityI)
  show "length (fold (SwapBytes_group sz) [0..<len] (fold (SwapBytes_group sz) [0..<len] buf)) = length buf"
    by (simp add: swap_groups_length)
next
  fix j
  assume "j < length (fold (SwapBytes_group sz) [0..<len] (fold (SwapBytes_group sz) [0..<len] buf))"
  then have j: "j < length buf" by (simp add: swap_groups_length)
  let ?b = "fold (SwapBytes_group sz) [0..<len] buf"
  have l: "length ?b = length buf" by (rule swap_groups_length)
  have a1: "len * sz \<le> length ?b" using assms l by simp
  have j1: "j < length ?b" using j l by simp
  show "fold (SwapBytes_group sz) [0..<len] ?b ! j = buf ! j"
  proof (cases "j < len * sz")
    case False
    then show ?thesis
      using swap_groups_nth[OF a1 j1] swap_groups_nth[OF assms j] by simp
  next
    case True
    then have szp: "0 < sz" by (cases sz) auto
    define r where "r = sz - 1 - j mod sz"
    let ?k = "(j div sz) * sz + r"
    have ml: "j mod sz < sz" using szp by simp
    have rl: "r < sz" using szp by (simp add: r_def)
    have kd: "?k div sz = j div sz" using rl by simp
    have km: "?k mod sz = r" using rl by simp
    have dl: "j div sz < len" using True szp
      by (simp add: div_less_iff_less_mult)
    have "?k < (j div sz) * sz + sz" using rl by simp
    also have "\<dots> = Suc (j div sz) * sz" by simp
    also have "\<dots> \<le> len * sz" using dl by (intro mult_le_mono1) simp
    finally have klt: "?k < len * sz" .
    then have kl: "?k < length buf" using assms by simp
    have "sz - 1 - r = j mod sz" using ml by (simp add: r_def)
    then have bk: "(?k div sz) * sz + (sz - 1 - ?k mod sz) = j"
      using kd km by simp
    have "fold (SwapBytes_group sz) [0..<len] ?b ! j = ?b ! ?k"
      using swap_groups_nth[OF a1 j1] True by (simp add: r_def)
    also have "\<dots> = buf ! ((?k div sz) * sz + (sz - 1 - ?k mod sz))"
      using swap_groups_nth[OF assms kl] klt by simp
    finally show ?thesis using bk by simp
  qed
qed

lemma swap_groups_width1:
  assumes "len \<le> length buf"
  shows "fold (SwapBytes_group 1) [0..<len] buf = buf"
proof (rule nth_equalityI)
  show "length (fold (SwapBytes_group 1) [0..<len] buf) = length buf"
    by (simp add: swap_groups_length)
next
  fix j
  assume "j < length (fold (SwapBytes_group 1) [0..<len] buf)"
  then have j: "j < length buf" by (simp add: swap_groups_length)
  have "len * 1 \<le> length buf" using assms by simp
  from swap_groups_nth[OF this j] show "fold (SwapBytes_group 1) [0..<len] buf ! j = buf ! j"
    by simp
qed

text \<open>
  Claim C8. For a buffer that holds the \<open>len\<close> groups, swapping twice with a width of 1, 2, 4
  or 8 bytes gives the buffer back; with width 1 one swap already leaves it as it is; and
  \<^verbatim>\<open>ReadSamples\<close> on Int8 and Uint8 returns the same for both requested byte orders.
\<close>

theorem SwapBytes_involution:
  "(sz \<in> {1, 2, 4, 8} \<and> len * sz \<le> length buf \<longrightarrow>
      (\<exists>b. SwapBytes buf sz len = Inr b \<and> SwapBytes b sz len = Inr buf))
   \<and> (len \<le> length buf \<longrightarrow> SwapBytes buf 1 len = Inr buf)
   \<and> (fmt \<in> {Int8, Uint8} \<longrightarrow>
        ReadSamples buffer n stride fmt Little r = ReadSamples buffer n stride fmt Big r)"
proof (intro conjI impI)
  assume a: "sz \<in> {1, 2, 4, 8} \<and> len * sz \<le> length buf"
  then have "\<not> 8 < sz" by auto
  then show "\<exists>b. SwapBytes buf sz len = Inr b \<and> SwapBytes b sz len = Inr buf"
    using a by (simp add: SwapBytes_def swap_groups_twice)
next
  assume "len \<le> length buf"
  then show "SwapBytes buf 1 len = Inr buf"
    by (simp add: SwapBytes_def swap_groups_width1[unfolded One_nat_def])
next
  assume "fmt \<in> {Int8, Uint8}"
  then show "ReadSamples buffer n stride fmt Little r = ReadSamples buffer n stride fmt Big r"
    by (auto simp: ReadSamples_def)
qed

theorem SwapBytes_involution_witness:
  "SwapBytes [1, 2, 3, 4, 5 :: byte] 2 2 = Inr [2, 1, 4, 3, 5]
   \<and> SwapBytes [2, 1, 4, 3, 5 :: byte] 2 2 = Inr [1, 2, 3, 4, 5]
   \<and> SwapBytes [1, 2, 3, 4, 5 :: byte] 1 2 = Inr [1, 2, 3, 4, 5]
   \<and> ReadSamples [0, 0 :: byte] 2 1 Int8 Little \<lparr>fbytes = [7, 9], fpos = 0, mEnd = Little\<rparr>
       = ReadSamples [0, 0 :: byte] 2 1 Int8 Big \<lparr>fbytes = [7, 9], fpos = 0, mEnd = Little\<rparr>"
proof -
  have v: "SwapBytes [1, 2, 3, 4, 5 :: byte] 2 2 = Inr [2, 1, 4, 3, 5]"
    by (simp add: SwapBytes_def SwapBytes_group_def upt_rec)
  show ?thesis
    using v SwapBytes_involution[where sz = 2 and len = 2 and buf = "[1, 2, 3, 4, 5 :: byte]"
        and fmt = Int8 and buffer = "[0, 0]" and n = 2 and stride = 1
        and r = "\<lparr>fbytes = [7, 9], fpos = 0, mEnd = Little\<rparr>"]
    by simp
qed

section \<open>Faults\<close>

lemma ReadSamples_no_fault: "ReadSamples buffer n stride fmt en r \<noteq> Inl e"
  by (cases fmt)
    (simp_all add: ReadSamples_def ReadSwap_def SwapBytes_def Let_def split: prod.splits)

lemma ReadSamples_Inr: "\<exists>actRead raw r'. ReadSamples buffer n stride fmt en r = Inr (actRead, raw, r')"
  using ReadSamples_no_fault[of buffer n stride fmt en r]
  by (cases "ReadSamples buffer n stride fmt en r") auto

text \<open>
  Claim C9. \<^verbatim>\<open>SwapBytes\<close> raises its exception exactly for a width above 8 bytes, and
  \<^verbatim>\<open>ReadSamples\<close> returns without it for every format, byte order, buffer and reader.
\<close>

theorem UnsupportedWidth_unreachable:
  "(SwapBytes buf sz len = Inl UnsupportedWidth \<longleftrightarrow> 8 < sz)
   \<and> (\<exists>res. ReadSamples buffer n stride fmt en r = Inr res)"
proof
  show "SwapBytes buf sz len = Inl UnsupportedWidth \<longleftrightarrow> 8 < sz"
    by (simp add: SwapBytes_def)
next
  show "\<exists>res. ReadSamples buffer n stride fmt en r = Inr res"
    using ReadSamples_Inr[of buffer n stride fmt en r] by auto
qed

section \<open>The decision\<close>

lemma flt_irrefl: "\<not> flt a a"
  by (cases a) auto

lemma flt_not_NaN: "flt a b \<Longrightarrow> a \<noteq> NaN \<and> b \<noteq> NaN"
  by (cases a; cases b) auto

lemma flt_trans: "flt a b \<Longrightarrow> flt b c \<Longrightarrow> flt a c"
  by (cases a; cases b; cases c) auto

lemma flt_le_trans: "\<not> flt m a \<Longrightarrow> flt m b \<Longrightarrow> \<not> flt b a"
  by (cases a; cases b; cases m) auto

lemma Max'_Suc:
  "Max' inp (Suc len) =
     (let (mx, maxidx) = Max' inp len
      in if fgt (inp ! len) mx then (inp ! len, len) else (mx, maxidx))"
  by (simp add: Max'_def)

lemma Max'_0: "Max' inp 0 = (fneg FLT_MAX, 0)"
  by (simp add: Max'_def)

lemma Max'_index: "snd (Max' inp len) < len \<or> snd (Max' inp len) = 0"
  by (induction len) (auto simp: Max'_Suc Max'_0 split: prod.splits)

lemma Max'_upper: "n < len \<Longrightarrow> \<not> fgt (inp ! n) (fst (Max' inp len))"
proof (induction len)
  case 0
  then show ?case by simp
next
  case (Suc len)
  obtain mx i where m: "Max' inp len = (mx, i)" by (cases "Max' inp len")
  show ?case
  proof (cases "n = len")
    case True
    then show ?thesis using m by (simp add: Max'_Suc fgt_def flt_irrefl)
  next
    case False
    then have "\<not> fgt (inp ! n) mx" using Suc m by simp
    then show ?thesis using m by (auto simp: Max'_Suc fgt_def dest: flt_le_trans)
  qed
qed

lemma Max'_value:
  "fst (Max' inp len) = fneg FLT_MAX \<and> (\<forall>n<len. \<not> fgt (inp ! n) (fneg FLT_MAX))
   \<or> fst (Max' inp len) = inp ! snd (Max' inp len) \<and> snd (Max' inp len) < len"
proof (induction len)
  case 0
  then show ?case by (simp add: Max'_0)
next
  case (Suc len)
  obtain mx i where m: "Max' inp len = (mx, i)" by (cases "Max' inp len")
  show ?case
  proof (cases "fgt (inp ! len) mx")
    case True
    then show ?thesis using m by (simp add: Max'_Suc)
  next
    case False
    then show ?thesis using m Suc by (auto simp: Max'_Suc less_Suc_eq)
  qed
qed

lemma Run_result_fields:
  "mClasses (Run_result st) = mClasses st \<and> mMonoFeat (Run_result st) = mMonoFeat st
   \<and> mStereoFeat (Run_result st) = mStereoFeat st"
  by (simp add: Run_result_def Let_def split: prod.splits)

declare ReadSignal_loop.simps [simp del]

lemma ReadSignal_body_classes:
  "ReadSignal_body rd fmt stride n st = Inr (actRead, st') \<Longrightarrow> mClasses st' = mClasses st"
  by (auto simp: ReadSignal_body_def Let_def split: sum.splits prod.splits if_splits)

lemma ReadSignal_loop_classes:
  "ReadSignal_loop rd fmt stride n st = Inr st' \<Longrightarrow> mClasses st' = mClasses st"
proof (induction rd fmt stride n st rule: ReadSignal_loop.induct)
  case (1 rd fmt stride n st)
  from "1.prems" obtain actRead st1 where
    b: "ReadSignal_body rd fmt stride n st = Inr (actRead, st1)"
    by (subst (asm) ReadSignal_loop.simps) (auto split: sum.splits)
  have c1: "mClasses st1 = mClasses st" using ReadSignal_body_classes[OF b] .
  show ?case
  proof (cases "n + 1 < cNumInts \<and> actRead = cSiglen")
    case True
    then have "ReadSignal_loop rd fmt stride (n + 1) st1 = Inr st'"
      using "1.prems" b by (subst (asm) ReadSignal_loop.simps) simp
    then show ?thesis using "1.IH"[OF b refl True] c1 by simp
  next
    case False
    then have "st' = st1" using "1.prems" b by (subst (asm) ReadSignal_loop.simps) auto
    then show ?thesis using c1 by simp
  qed
qed

lemma ReadSignal_classes:
  "ReadSignal rd fmt stride st = Inr st' \<Longrightarrow> mClasses st' = mClasses st"
  unfolding ReadSignal_def by (drule ReadSignal_loop_classes) simp

lemma Preprocess_classes: "mClasses (Preprocess rd st) = mClasses st"
  by (simp add: Preprocess_def Let_def split: prod.splits)

lemma Run_mono_classes:
  "Run_mono rd rdd fft n st = Inr st' \<Longrightarrow> mClasses st' = mClasses st"
  by (auto simp: Run_mono_def Let_def Preprocess_classes split: sum.splits
      dest!: ReadSignal_classes)

lemma Run_stereo_classes:
  "Run_stereo rd rdd fft n st = Inr st' \<Longrightarrow> mClasses st' = mClasses st"
  by (auto simp: Run_stereo_def Let_def Preprocess_classes split: sum.splits
      dest!: ReadSignal_classes)

lemma for_each_classes:
  assumes "\<And>n s s'. body n s = Inr s' \<Longrightarrow> mClasses s' = mClasses s"
  shows "for_each body ns s = Inr s' \<Longrightarrow> mClasses s' = mClasses s"
proof (induction ns arbitrary: s)
  case Nil
  then show ?case by simp
next
  case (Cons n ns)
  then show ?case using assms by (auto split: sum.splits)
qed

lemma Run_cases:
  "(\<exists>e. Run rd rdd fft st = Inl e)
   \<or> (\<exists>st2. Run rd rdd fft st = Inr (Run_result st2) \<and> mClasses st2 = mClasses st)"
proof (cases "Run rd rdd fft st")
  case (Inl e)
  then show ?thesis by simp
next
  case (Inr st')
  let ?st0 = "st\<lparr>mPLo := [], mPHiM := [], mPHiS := [], mMeter := EnableEqualizer (mMeter st)\<rparr>"
  from Inr obtain st1 where
    m: "for_each (Run_mono rd rdd fft) [0..<length (mClasses ?st0)] ?st0 = Inr st1"
    by (auto simp: Run_def Let_def split: sum.splits)
  from Inr m obtain st2 where
    s: "for_each (Run_stereo rd rdd fft) [0..<length (mClasses st1)]
          (st1\<lparr>mMeter := DisableEqualizer (mMeter st1)\<rparr>) = Inr st2"
    and r: "st' = Run_result st2"
    by (auto simp: Run_def Let_def split: sum.splits)
  have c1: "mClasses st1 = mClasses st"
    using for_each_classes[OF Run_mono_classes m] by simp
  have c2: "mClasses st2 = mClasses st"
    using for_each_classes[OF Run_stereo_classes s] c1 by simp
  show ?thesis using Inr r c2 by auto
qed

text \<open>
  Claim C2, as the code has it. \<^verbatim>\<open>Run\<close> ends in a fault of a power measurement or in
  \<open>Run_result\<close> of a state with the classes it started with. \<open>Run_result\<close> compares the two
  values \<^verbatim>\<open>Max\<close> returns, running maxima that start at \<open>- FLT_MAX\<close>: none of the ten
  features exceeds its maximum, and the maximum is the feature at the index returned as soon
  as one feature exceeds \<open>- FLT_MAX\<close>. If the mono maximum exceeds the stereo maximum the
  result is the mono class with 1 channel, otherwise (equal maxima included) the stereo class
  with 2 channels; it is always one of the ten candidates with 1 or 2 channels.
\<close>

theorem Run_result_choice:
  "((\<exists>e. Run rd rdd fft st0 = Inl e)
     \<or> (\<exists>st2. Run rd rdd fft st0 = Inr (Run_result st2) \<and> mClasses st2 = mClasses st0))
   \<and> (mClasses st = candidates \<longrightarrow>
        (let (monoMax, midx) = Max' (mMonoFeat st) 10;
             (stereoMax, sidx) = Max' (mStereoFeat st) 10;
             st' = Run_result st
         in midx < 10 \<and> sidx < 10
            \<and> (\<forall>n<10. \<not> fgt (mMonoFeat st ! n) monoMax)
            \<and> (\<forall>n<10. \<not> fgt (mStereoFeat st ! n) stereoMax)
            \<and> ((\<exists>n<10. fgt (mMonoFeat st ! n) (fneg FLT_MAX)) \<longrightarrow> monoMax = mMonoFeat st ! midx)
            \<and> ((\<exists>n<10. fgt (mStereoFeat st ! n) (fneg FLT_MAX)) \<longrightarrow> stereoMax = mStereoFeat st ! sidx)
            \<and> (fgt monoMax stereoMax \<longrightarrow>
                  mResultFormat st' = candidates ! midx \<and> mResultChannels st' = 1)
            \<and> (\<not> fgt monoMax stereoMax \<longrightarrow>
                  mResultFormat st' = candidates ! sidx \<and> mResultChannels st' = 2)
            \<and> mResultFormat st' \<in> set candidates \<and> mResultChannels st' \<in> {1, 2}))"
proof (intro conjI impI)
  show "(\<exists>e. Run rd rdd fft st0 = Inl e)
     \<or> (\<exists>st2. Run rd rdd fft st0 = Inr (Run_result st2) \<and> mClasses st2 = mClasses st0)"
    by (rule Run_cases)
next
  assume assms: "mClasses st = candidates"
  have len: "length candidates = 10" by (simp add: candidates_def)
  obtain mm mi where m: "Max' (mMonoFeat st) 10 = (mm, mi)" by (cases "Max' (mMonoFeat st) 10")
  obtain sm si where s: "Max' (mStereoFeat st) 10 = (sm, si)" by (cases "Max' (mStereoFeat st) 10")
  have mi: "mi < 10" using Max'_index[of "mMonoFeat st" 10] m by auto
  have si: "si < 10" using Max'_index[of "mStereoFeat st" 10] s by auto
  have um: "\<forall>n<10. \<not> fgt (mMonoFeat st ! n) mm"
    using Max'_upper[of _ 10 "mMonoFeat st"] m by simp
  have us: "\<forall>n<10. \<not> fgt (mStereoFeat st ! n) sm"
    using Max'_upper[of _ 10 "mStereoFeat st"] s by simp
  have vm: "(\<exists>n<10. fgt (mMonoFeat st ! n) (fneg FLT_MAX)) \<longrightarrow> mm = mMonoFeat st ! mi"
    using Max'_value[of "mMonoFeat st" 10] m by auto
  have vs: "(\<exists>n<10. fgt (mStereoFeat st ! n) (fneg FLT_MAX)) \<longrightarrow> sm = mStereoFeat st ! si"
    using Max'_value[of "mStereoFeat st" 10] s by auto
  have r: "Run_result st =
      (if fgt mm sm then st\<lparr>mResultChannels := 1, mResultFormat := candidates ! mi\<rparr>
       else st\<lparr>mResultChannels := 2, mResultFormat := candidates ! si\<rparr>)"
    using m s assms len by (simp add: Run_result_def)
  have inm: "candidates ! mi \<in> set candidates" using mi len by simp
  have ins: "candidates ! si \<in> set candidates" using si len by simp
  show "let (monoMax, midx) = Max' (mMonoFeat st) 10;
             (stereoMax, sidx) = Max' (mStereoFeat st) 10;
             st' = Run_result st
         in midx < 10 \<and> sidx < 10
            \<and> (\<forall>n<10. \<not> fgt (mMonoFeat st ! n) monoMax)
            \<and> (\<forall>n<10. \<not> fgt (mStereoFeat st ! n) stereoMax)
            \<and> ((\<exists>n<10. fgt (mMonoFeat st ! n) (fneg FLT_MAX)) \<longrightarrow> monoMax = mMonoFeat st ! midx)
            \<and> ((\<exists>n<10. fgt (mStereoFeat st ! n) (fneg FLT_MAX)) \<longrightarrow> stereoMax = mStereoFeat st ! sidx)
            \<and> (fgt monoMax stereoMax \<longrightarrow>
                  mResultFormat st' = candidates ! midx \<and> mResultChannels st' = 1)
            \<and> (\<not> fgt monoMax stereoMax \<longrightarrow>
                  mResultFormat st' = candidates ! sidx \<and> mResultChannels st' = 2)
            \<and> mResultFormat st' \<in> set candidates \<and> mResultChannels st' \<in> {1, 2}"
    unfolding m s Let_def prod.case
    using mi si um us vm vs inm ins by (simp add: r)
qed

text \<open>
  A run of the theorem: the mono maximum 7 (class 0) ties with the stereo maximum 7 (class 1),
  with NaN features around them; the result is class 1, (Int16, Little), with 2 channels.
\<close>

theorem Run_result_choice_witness:
  "(let st = FormatClassifier_new [] Little
               ([Fin 7, NaN, Fin 3] @ replicate 7 NaN) ([Fin 1, Fin 7] @ replicate 8 NaN)
    in mClasses st = candidates
       \<and> Max' (mMonoFeat st) 10 = (Fin 7, 0) \<and> Max' (mStereoFeat st) 10 = (Fin 7, 1)
       \<and> mResultFormat (Run_result st) = \<lparr>format = Int16, endian = Little\<rparr>
       \<and> mResultChannels (Run_result st) = 2)"
proof -
  define st where "st = FormatClassifier_new [] Little
               ([Fin 7, NaN, Fin 3] @ replicate 7 NaN) ([Fin 1, Fin 7] @ replicate 8 NaN)"
  have c: "mClasses st = candidates" by (simp add: st_def FormatClassifier_new_def)
  have m: "Max' (mMonoFeat st) 10 = (Fin 7, 0)"
    by (simp add: st_def FormatClassifier_new_def Max'_def upt_rec fgt_def FLT_MAX_def)
  have s: "Max' (mStereoFeat st) 10 = (Fin 7, 1)"
    by (simp add: st_def FormatClassifier_new_def Max'_def upt_rec fgt_def FLT_MAX_def)
  have "mResultFormat (Run_result st) = candidates ! 1 \<and> mResultChannels (Run_result st) = 2"
    using Run_result_choice[of Fin Fin "\<lambda>n re im. (re, im)" st st] c m s
    by (simp add: fgt_def Let_def)
  then show ?thesis
    using c m s unfolding st_def[symmetric] Let_def by (simp add: candidates_def)
qed

text \<open>
  The claim as stated compares the features at the two indices. With one mono feature and
  every stereo feature a NaN, both indices are 0 and the mono feature 1 does not exceed the
  stereo feature NaN, yet the result is mono: the stereo maximum returned is \<open>- FLT_MAX\<close>.
\<close>

theorem Run_result_choice_counterexample:
  "(let st = FormatClassifier_new [] Little (Fin 1 # replicate 9 NaN) (replicate 10 NaN);
        midx = snd (Max' (mMonoFeat st) 10);
        sidx = snd (Max' (mStereoFeat st) 10)
    in midx = 0 \<and> sidx = 0
       \<and> \<not> fgt (mMonoFeat st ! midx) (mStereoFeat st ! sidx)
       \<and> mResultFormat (Run_result st) = candidates ! midx
       \<and> mResultChannels (Run_result st) = 1)"
proof -
  define st where "st = FormatClassifier_new [] Little (Fin 1 # replicate 9 NaN) (replicate 10 NaN)"
  have l: "length (mClasses st) = 10" "mClasses st = candidates"
    by (simp_all add: st_def FormatClassifier_new_def candidates_def)
  have m: "Max' (mMonoFeat st) 10 = (Fin 1, 0)"
    by (simp add: st_def FormatClassifier_new_def Max'_def upt_rec fgt_def FLT_MAX_def)
  have s: "Max' (mStereoFeat st) 10 = (fneg FLT_MAX, 0)"
    by (simp add: st_def FormatClassifier_new_def Max'_def upt_rec fgt_def FLT_MAX_def)
  have f: "mMonoFeat st ! 0 = Fin 1" "mStereoFeat st ! 0 = NaN"
    by (simp_all add: st_def FormatClassifier_new_def)
  have r: "mResultFormat (Run_result st) = candidates ! 0 \<and> mResultChannels (Run_result st) = 1"
    using l m s by (simp add: Run_result_def fgt_def FLT_MAX_def)
  show ?thesis
    unfolding st_def[symmetric] Let_def using m s f r by (simp add: fgt_def)
qed

section \<open>Rounding\<close>

lemma pow2_powr: "pow2 e = 2 powr (of_int e)"
  by (simp add: pow2_def powr_real_of_int inverse_eq_divide)

lemma pow2_pos: "0 < pow2 e"
  by (simp add: pow2_def)

lemma floor_log2: 
  assumes "pow2 e \<le> x" and "x < pow2 (e + 1)"
  shows "\<lfloor>log 2 x\<rfloor> = e"
proof -
  have "0 < x" using assms(1) pow2_pos[of e] by linarith
  then show ?thesis
    using assms floor_log_eq_powr_iff[of x 2 e] by (simp add: pow2_powr)
qed

lemma pow2_less: "e < e' \<Longrightarrow> pow2 e < pow2 e'"
  unfolding pow2_powr
  by (rule powr_less_mono) simp_all

lemma round_binary_value:
  assumes "pow2 e \<le> \<bar>x\<bar>" and "\<bar>x\<bar> < pow2 (e + 1)" and "emin \<le> e" and "e < emax"
    and "round_even (x / pow2 (e - int p + 1)) = k"
    and "\<bar>of_int k * pow2 (e - int p + 1)\<bar> \<le> pow2 (e + 1)"
  shows "round_binary p emin emax x = Fin (of_int k * pow2 (e - int p + 1))"
proof -
  have nz: "x \<noteq> 0" using assms(1) pow2_pos[of e] by auto
  have fl: "\<lfloor>log 2 \<bar>x\<bar>\<rfloor> = e" using floor_log2[OF assms(1,2)] .
  have mx: "max e emin = e" using assms(3) by simp
  have "pow2 (e + 1) < pow2 (emax + 1)" using assms(4) by (intro pow2_less) simp
  then have "\<not> pow2 (emax + 1) \<le> \<bar>of_int k * pow2 (e - int p + 1)\<bar>"
    using assms(6) by linarith
  then show ?thesis
    unfolding round_binary_def Let_def fl mx using nz assms(5) by simp
qed

lemma round_even_int: "round_even (of_int k) = k"
  by (simp add: round_even_def)

lemma b32_045: "binary32 (45 / 100) = Fin (15099494 / 2 ^ 25)"
  unfolding binary32_def
  by (subst round_binary_value[where e = "-2" and k = 15099494])
     (simp_all add: pow2_def round_even_def)

lemma b32_01: "binary32 (1 / 10) = Fin (13421773 / 2 ^ 27)"
  unfolding binary32_def
  by (subst round_binary_value[where e = "-4" and k = 13421773])
     (simp_all add: pow2_def round_even_def)

lemma b32_zero: "binary32 0 = Fin 0"
  by (simp add: binary32_def round_binary_def)

lemma b32_256: "binary32 256 = Fin 256"
  unfolding binary32_def
  by (subst round_binary_value[where e = "8" and k = "2^23"])
     (simp_all add: pow2_def round_even_def)


section \<open>The bands of the power meter\<close>

lemma upto_as_upt: "[int a..int a + int k - 1] = map int [a..<a + k]"
proof (induction k)
  case 0
  then show ?case by simp
next
  case (Suc k)
  have "[int a..int a + int (Suc k) - 1] = [int a..int a + int k - 1] @ [int a + int k]"
    using upto_rec2[of "int a" "int a + int k"] by simp
  then show ?case using Suc by simp
qed

lemma upto_nat:
  assumes "0 \<le> lo"
  shows "[lo..hi - 1] = map int [nat lo..<nat hi]"
proof (cases "lo < hi")
  case True
  then have h: "hi = int (nat lo) + int (nat hi - nat lo)" using assms by simp
  have "[int (nat lo)..int (nat lo) + int (nat hi - nat lo) - 1]
          = map int [nat lo..<nat lo + (nat hi - nat lo)]"
    by (rule upto_as_upt)
  moreover have "nat lo + (nat hi - nat lo) = nat hi" using True assms by simp
  ultimately show ?thesis using h assms by simp
next
  case False
  then show ?thesis by simp
qed

lemma CalcBinPower_fold:
  assumes "0 \<le> lo" and "hi \<le> mSigLen m"
  shows "CalcBinPower rd m fr fi lo hi =
           Inr (fold (\<lambda>n pwr. fadd rd pwr (bin_power rd m fr fi n)) [nat lo..<nat hi] (Fin 0))"
  using assms
  by (simp add: CalcBinPower_def upto_nat fold_map comp_def bin_power_def Let_def)

lemma c_rem_nonneg: "0 \<le> a \<Longrightarrow> 0 < b \<Longrightarrow> c_rem a b = a mod b"
  by (cases "a = 0") (simp_all add: c_rem_def minus_mult_div_eq_mod)

lemma c_rem_neg: "a < 0 \<Longrightarrow> 0 < b \<Longrightarrow> c_rem a b = - ((- a) mod b)"
  by (simp add: c_rem_def minus_mult_div_eq_mod[symmetric])

lemma Freq2Bin_value:
  assumes "0 < mSigLen m" and "rdd (f * of_int (mSigLen m)) = Fin v"
    and "- (2 ^ 31) \<le> \<lfloor>v\<rfloor>" and "\<lfloor>v\<rfloor> < 2 ^ 31"
  shows "Freq2Bin rdd m (Fin f) =
           Inr (if 0 \<le> v then \<lfloor>v\<rfloor> mod mSigLen m else - ((- \<lfloor>v\<rfloor>) mod mSigLen m))"
proof (cases "0 \<le> v")
  case True
  then have "0 \<le> \<lfloor>v\<rfloor>" by simp
  then show ?thesis using assms True by (simp add: Freq2Bin_def c_rem_nonneg)
next
  case False
  then have "\<lfloor>v\<rfloor> < 0" by (simp add: floor_less_iff)
  then show ?thesis using assms False by (simp add: Freq2Bin_def c_rem_neg)
qed

text \<open>The band edges of the three requests, in binary32.\<close>

lemma b32_04: "binary32 (40 / 100) = Fin (13421773 / 2 ^ 25)"
  unfolding binary32_def
  by (subst round_binary_value[where e = "-2" and k = 13421773])
     (simp_all add: pow2_def round_even_def)

lemma b32_02: "binary32 (2 / 10) = Fin (13421773 / 2 ^ 26)"
  unfolding binary32_def
  by (subst round_binary_value[where e = "-3" and k = 13421773])
     (simp_all add: pow2_def round_even_def)

lemma edge1_lo: "fsub binary32 (Fin (1 / 4)) (fdiv binary32 (Fin (1 / 2)) (Fin 2)) = Fin 0"
proof -
  have "binary32 (1 / 4) = Fin (1 / 4)"
    unfolding binary32_def
    by (subst round_binary_value[where e = "-2" and k = "2 ^ 23"])
       (simp_all add: pow2_def round_even_def)
  then show ?thesis by (simp add: fsub_def b32_zero)
qed

lemma edge1_hi: "fadd binary32 (Fin (1 / 4)) (fdiv binary32 (Fin (1 / 2)) (Fin 2)) = Fin (1 / 2)"
proof -
  have a: "binary32 (1 / 4) = Fin (1 / 4)"
    unfolding binary32_def
    by (subst round_binary_value[where e = "-2" and k = "2 ^ 23"])
       (simp_all add: pow2_def round_even_def)
  have b: "binary32 (1 / 2) = Fin (1 / 2)"
    unfolding binary32_def
    by (subst round_binary_value[where e = "-1" and k = "2 ^ 23"])
       (simp_all add: pow2_def round_even_def)
  show ?thesis using a b by simp
qed

lemma half_01: "fdiv binary32 (binary32 (1 / 10)) (Fin 2) = Fin (13421773 / 2 ^ 28)"
proof -
  have "binary32 (13421773 / 2 ^ 28) = Fin (13421773 / 2 ^ 28)"
    unfolding binary32_def
    by (subst round_binary_value[where e = "-5" and k = "13421773"])
       (simp_all add: pow2_def round_even_def)
  then show ?thesis by (simp add: b32_01[simplified])
qed

lemma edge2_lo:
  "fsub binary32 (binary32 (45 / 100)) (fdiv binary32 (binary32 (1 / 10)) (Fin 2))
     = Fin (13421772 / 2 ^ 25)"
proof -
  have "binary32 (107374179 / 2 ^ 28) = Fin (13421772 / 2 ^ 25)"
    unfolding binary32_def
    by (subst round_binary_value[where e = "-2" and k = "13421772"])
       (simp_all add: pow2_def round_even_def)
  then show ?thesis by (simp add: half_01[simplified] b32_045[simplified] fsub_def)
qed

lemma edge2_hi:
  "fadd binary32 (binary32 (45 / 100)) (fdiv binary32 (binary32 (1 / 10)) (Fin 2))
     = Fin (1 / 2)"
proof -
  have "binary32 (134217725 / 2 ^ 28) = Fin (1 / 2)"
    unfolding binary32_def
    by (subst round_binary_value[where e = "-2" and k = "16777216"])
       (simp_all add: pow2_def round_even_def)
  then show ?thesis by (simp add: half_01[simplified] b32_045[simplified])
qed

lemma half_02: "fdiv binary32 (binary32 (2 / 10)) (Fin 2) = Fin (13421773 / 2 ^ 27)"
proof -
  have "binary32 (13421773 / 2 ^ 27) = Fin (13421773 / 2 ^ 27)"
    unfolding binary32_def
    by (subst round_binary_value[where e = "-4" and k = "13421773"])
       (simp_all add: pow2_def round_even_def)
  then show ?thesis by (simp add: b32_02[simplified])
qed

lemma edge3_lo:
  "fsub binary32 (binary32 (40 / 100)) (fdiv binary32 (binary32 (2 / 10)) (Fin 2))
     = Fin (10066330 / 2 ^ 25)"
proof -
  have "binary32 (40265319 / 2 ^ 27) = Fin (10066330 / 2 ^ 25)"
    unfolding binary32_def
    by (subst round_binary_value[where e = "-2" and k = "10066330"])
       (simp_all add: pow2_def round_even_def)
  then show ?thesis by (simp add: half_02[simplified] b32_04[simplified] fsub_def)
qed

lemma edge3_hi:
  "fadd binary32 (binary32 (40 / 100)) (fdiv binary32 (binary32 (2 / 10)) (Fin 2))
     = Fin (1 / 2)"
proof -
  have "binary32 (67108865 / 2 ^ 27) = Fin (1 / 2)"
    unfolding binary32_def
    by (subst round_binary_value[where e = "-1" and k = "8388608"])
       (simp_all add: pow2_def round_even_def)
  then show ?thesis by (simp add: half_02[simplified] b32_04[simplified])
qed

text \<open>The products with 256, in binary64.\<close>

lemma b64_0: "binary64 0 = Fin 0"
  by (simp add: binary64_def round_binary_def)

lemma b64_128: "binary64 128 = Fin 128"
  unfolding binary64_def
  by (subst round_binary_value[where e = "7" and k = "2 ^ 52"])
     (simp_all add: pow2_def round_even_def)

lemma b64_edge2: "binary64 (13421772 * 256 / 2 ^ 25) = Fin (13421772 / 2 ^ 17)"
  unfolding binary64_def
  by (subst round_binary_value[where e = "6" and k = "13421772 * 2 ^ 29"])
     (simp_all add: pow2_def round_even_def)

lemma b64_edge3: "binary64 (10066330 * 256 / 2 ^ 25) = Fin (10066330 / 2 ^ 17)"
  unfolding binary64_def
  by (subst round_binary_value[where e = "6" and k = "10066330 * 2 ^ 29"])
     (simp_all add: pow2_def round_even_def)


lemma bins_of_requests:
  assumes "mSigLen m = 256"
  shows "Freq2Bin binary64 m (Fin 0) = Inr 0"
    and "Freq2Bin binary64 m (Fin (1 / 2)) = Inr 128"
    and "Freq2Bin binary64 m (Fin (13421772 / 2 ^ 25)) = Inr 102"
    and "Freq2Bin binary64 m (Fin (10066330 / 2 ^ 25)) = Inr 76"
  using assms
  by (simp_all add: Freq2Bin_def b64_0 b64_128 b64_edge2[simplified] b64_edge3[simplified]
      c_rem_def)


lemma fold_fadd_exact:
  "(\<And>n. n \<in> set ns \<Longrightarrow> g n = Fin (p n)) \<Longrightarrow>
   fold (\<lambda>n acc. fadd Fin acc (g n)) ns (Fin s) = Fin (s + sum_list (map p ns))"
  by (induction ns arbitrary: s) (simp_all add: add.assoc)

lemma b64_64: "binary64 64 = Fin 64"
  unfolding binary64_def
  by (subst round_binary_value[where e = "6" and k = "2 ^ 52"])
     (simp_all add: pow2_def round_even_def)

lemma request_bins:
  assumes "mSigLen m = 256"
  shows "Freq2Bin binary64 m (fsub binary32 (Fin (1 / 4)) (fdiv binary32 (Fin (1 / 2)) (Fin 2)))
        = Inr 0"
    and "Freq2Bin binary64 m (fadd binary32 (Fin (1 / 4)) (fdiv binary32 (Fin (1 / 2)) (Fin 2)))
        = Inr 128"
    and "Freq2Bin binary64 m
          (fsub binary32 (binary32 (45 / 100)) (fdiv binary32 (binary32 (1 / 10)) (Fin 2)))
        = Inr 102"
    and "Freq2Bin binary64 m
          (fadd binary32 (binary32 (45 / 100)) (fdiv binary32 (binary32 (1 / 10)) (Fin 2)))
        = Inr 128"
    and "Freq2Bin binary64 m
          (fsub binary32 (binary32 (40 / 100)) (fdiv binary32 (binary32 (2 / 10)) (Fin 2)))
        = Inr 76"
    and "Freq2Bin binary64 m
          (fadd binary32 (binary32 (40 / 100)) (fdiv binary32 (binary32 (2 / 10)) (Fin 2)))
        = Inr 128"
  unfolding edge1_lo edge1_hi edge2_lo edge2_hi edge3_lo edge3_hi
  by (rule bins_of_requests[OF assms])+

lemma Freq2Bin_range:
  assumes "rdd (f * of_int (mSigLen m)) = Fin v" and "\<lfloor>v\<rfloor> < - (2 ^ 31) \<or> 2 ^ 31 \<le> \<lfloor>v\<rfloor>"
  shows "Freq2Bin rdd m (Fin f) = Inl UndefinedBehaviour"
  using assms by (auto simp: Freq2Bin_def)

lemma b64_2_31: "binary64 2147483648 = Fin 2147483648"
  unfolding binary64_def
  by (subst round_binary_value[where e = "31" and k = "2 ^ 52"])
     (simp_all add: pow2_def round_even_def)

text \<open>A request whose low edge is negative: centre 0 and bandwidth 1/4.\<close>

lemma b32_eighth: "binary32 (1 / 8) = Fin (1 / 8)"
  unfolding binary32_def
  by (subst round_binary_value[where e = "-3" and k = "2 ^ 23"])
     (simp_all add: pow2_def round_even_def)

lemma b32_minus_eighth: "binary32 (- (1 / 8)) = Fin (- (1 / 8))"
  unfolding binary32_def
  by (subst round_binary_value[where e = "-3" and k = "- (2 ^ 23)"])
     (simp_all add: pow2_def round_even_def)

lemma b64_minus_32: "binary64 (- 32) = Fin (- 32)"
  unfolding binary64_def
  by (subst round_binary_value[where e = "5" and k = "- (2 ^ 52)"])
     (simp_all add: pow2_def round_even_def)

lemma b64_32: "binary64 32 = Fin 32"
  unfolding binary64_def
  by (subst round_binary_value[where e = "5" and k = "2 ^ 52"])
     (simp_all add: pow2_def round_even_def)

lemma negative_edge:
  "fsub binary32 (Fin 0) (fdiv binary32 (Fin (1 / 4)) (Fin 2)) = Fin (- (1 / 8))"
  "fadd binary32 (Fin 0) (fdiv binary32 (Fin (1 / 4)) (Fin 2)) = Fin (1 / 8)"
  using b32_eighth b32_minus_eighth by (simp_all add: fsub_def)

lemma negative_bin:
  "Freq2Bin binary64 (SpecPowerMeter 256) (Fin (- (1 / 8))) = Inr (- 32)"
  "Freq2Bin binary64 (SpecPowerMeter 256) (Fin (1 / 8)) = Inr 32"
  using b64_minus_32 b64_32 by (simp_all add: Freq2Bin_def SpecPowerMeter_def c_rem_def)

text \<open>
  Claim C3. A band edge \<open>f\<close> goes to the bin that the remainder of C gives for
  \<open>floor (f * N)\<close> and \<open>N\<close>: \<open>floor (f * N) mod N\<close> when the product is not negative, and
  \<open>- ((- floor (f * N)) mod N)\<close>, which is not positive, when it is negative; a product whose
  floor is outside the range of \<^verbatim>\<open>int\<close> has no defined bin.
  \<^verbatim>\<open>CalcPower\<close> takes the bins of the two edges, the high one raised to \<open>loBin + 1\<close> exactly
  when both coincide; \<^verbatim>\<open>CalcBinPower\<close> adds the squared magnitudes of the bins from \<open>loBin\<close>
  up to \<open>hiBin - 1\<close>, in exact arithmetic their sum, when these bins lie in the arrays, and
  reads outside the arrays when the range is not empty and \<open>loBin\<close> is negative or \<open>hiBin\<close>
  is above \<open>N\<close>. For the three requests of the classifier, with binary32 band edges,
  binary64 products and \<open>N = 256\<close>, the bins are 0 and 128, 102 and 128, 76 and 128.
\<close>

theorem CalcPower_bins:
  "(0 < mSigLen m \<and> rdd (f * of_int (mSigLen m)) = Fin v
        \<and> - (2 ^ 31) \<le> \<lfloor>v\<rfloor> \<and> \<lfloor>v\<rfloor> < 2 ^ 31 \<longrightarrow>
      Freq2Bin rdd m (Fin f) =
        Inr (if 0 \<le> v then \<lfloor>v\<rfloor> mod mSigLen m else - ((- \<lfloor>v\<rfloor>) mod mSigLen m)))
   \<and> (rdd (f * of_int (mSigLen m)) = Fin v \<and> (\<lfloor>v\<rfloor> < - (2 ^ 31) \<or> 2 ^ 31 \<le> \<lfloor>v\<rfloor>) \<longrightarrow>
      Freq2Bin rdd m (Fin f) = Inl UndefinedBehaviour)
   \<and> (Freq2Bin rdd m (fsub rd fc (fdiv rd bw (Fin 2))) = Inr lo
        \<and> Freq2Bin rdd m (fadd rd fc (fdiv rd bw (Fin 2))) = Inr hi \<longrightarrow>
      CalcPower rd rdd fft m sig fc bw =
        (let (fr, fi) = fft (nat (mSigLen m)) (take (nat (mSigLen m)) sig) (mSigI m)
         in CalcBinPower rd m fr fi lo (if lo = hi then lo + 1 else hi)))
   \<and> (0 \<le> lo \<and> hi \<le> mSigLen m \<longrightarrow>
      CalcBinPower rd m fr fi lo hi =
        Inr (fold (\<lambda>n pwr. fadd rd pwr (bin_power rd m fr fi n)) [nat lo..<nat hi] (Fin 0)))
   \<and> (lo < hi \<and> (lo < 0 \<or> mSigLen m < hi) \<longrightarrow>
      CalcBinPower rd m fr fi lo hi = Inl UndefinedBehaviour)
   \<and> (0 \<le> lo \<and> hi \<le> mSigLen m
        \<and> (\<forall>n. nat lo \<le> n \<and> n < nat hi \<longrightarrow> bin_power Fin m fr fi n = Fin (p n)) \<longrightarrow>
      CalcBinPower Fin m fr fi lo hi = Inr (Fin (\<Sum>n = nat lo..<nat hi. p n)))
   \<and> (mSigLen m = 256 \<longrightarrow>
      Freq2Bin binary64 m (fsub binary32 (Fin (1 / 4)) (fdiv binary32 (Fin (1 / 2)) (Fin 2)))
        = Inr 0
      \<and> Freq2Bin binary64 m (fadd binary32 (Fin (1 / 4)) (fdiv binary32 (Fin (1 / 2)) (Fin 2)))
        = Inr 128
      \<and> Freq2Bin binary64 m
          (fsub binary32 (binary32 (45 / 100)) (fdiv binary32 (binary32 (1 / 10)) (Fin 2)))
        = Inr 102
      \<and> Freq2Bin binary64 m
          (fadd binary32 (binary32 (45 / 100)) (fdiv binary32 (binary32 (1 / 10)) (Fin 2)))
        = Inr 128
      \<and> Freq2Bin binary64 m
          (fsub binary32 (binary32 (40 / 100)) (fdiv binary32 (binary32 (2 / 10)) (Fin 2)))
        = Inr 76
      \<and> Freq2Bin binary64 m
          (fadd binary32 (binary32 (40 / 100)) (fdiv binary32 (binary32 (2 / 10)) (Fin 2)))
        = Inr 128)"
proof (intro conjI impI)
  assume "0 < mSigLen m \<and> rdd (f * of_int (mSigLen m)) = Fin v
        \<and> - (2 ^ 31) \<le> \<lfloor>v\<rfloor> \<and> \<lfloor>v\<rfloor> < 2 ^ 31"
  then show "Freq2Bin rdd m (Fin f) =
        Inr (if 0 \<le> v then \<lfloor>v\<rfloor> mod mSigLen m else - ((- \<lfloor>v\<rfloor>) mod mSigLen m))"
    using Freq2Bin_value[of m rdd f v] by blast
next
  assume "rdd (f * of_int (mSigLen m)) = Fin v \<and> (\<lfloor>v\<rfloor> < - (2 ^ 31) \<or> 2 ^ 31 \<le> \<lfloor>v\<rfloor>)"
  then show "Freq2Bin rdd m (Fin f) = Inl UndefinedBehaviour"
    using Freq2Bin_range[of rdd f m v] by blast
next
  assume "lo < hi \<and> (lo < 0 \<or> mSigLen m < hi)"
  then show "CalcBinPower rd m fr fi lo hi = Inl UndefinedBehaviour"
    by (simp add: CalcBinPower_def)
next
  assume "Freq2Bin rdd m (fsub rd fc (fdiv rd bw (Fin 2))) = Inr lo
        \<and> Freq2Bin rdd m (fadd rd fc (fdiv rd bw (Fin 2))) = Inr hi"
  then show "CalcPower rd rdd fft m sig fc bw =
        (let (fr, fi) = fft (nat (mSigLen m)) (take (nat (mSigLen m)) sig) (mSigI m)
         in CalcBinPower rd m fr fi lo (if lo = hi then lo + 1 else hi))"
    by (simp add: CalcPower_def Let_def)
next
  assume "0 \<le> lo \<and> hi \<le> mSigLen m"
  then show "CalcBinPower rd m fr fi lo hi =
        Inr (fold (\<lambda>n pwr. fadd rd pwr (bin_power rd m fr fi n)) [nat lo..<nat hi] (Fin 0))"
    using CalcBinPower_fold[of lo hi m rd fr fi] by simp
next
  assume a: "0 \<le> lo \<and> hi \<le> mSigLen m
        \<and> (\<forall>n. nat lo \<le> n \<and> n < nat hi \<longrightarrow> bin_power Fin m fr fi n = Fin (p n))"
  then have "fold (\<lambda>n pwr. fadd Fin pwr (bin_power Fin m fr fi n)) [nat lo..<nat hi] (Fin 0)
      = Fin (0 + sum_list (map p [nat lo..<nat hi]))"
    by (intro fold_fadd_exact) simp
  then show "CalcBinPower Fin m fr fi lo hi = Inr (Fin (\<Sum>n = nat lo..<nat hi. p n))"
    using a CalcBinPower_fold[of lo hi m Fin fr fi]
    by (simp add: interv_sum_list_conv_sum_set_nat)
qed (use request_bins[of m] in \<open>simp_all del: fadd.simps fdiv.simps\<close>)

text \<open>
  The theorem at a meter of length 256 and a constant spectrum, for the first request of the
  classifier and for a request with a negative low edge.
\<close>

theorem CalcPower_bins_witness:
  "Freq2Bin binary64 (SpecPowerMeter 256) (Fin (1 / 4)) = Inr 64
   \<and> Freq2Bin binary64 (SpecPowerMeter 256) (Fin (- (1 / 8))) = Inr (- 32)
   \<and> Freq2Bin binary64 (SpecPowerMeter 256) (Fin 8388608) = Inl UndefinedBehaviour
   \<and> CalcPower binary32 binary64 (\<lambda>n re im. (re, im)) (SpecPowerMeter 256)
        (replicate 256 (Fin 1)) (Fin 0) (Fin (1 / 4)) = Inl UndefinedBehaviour
   \<and> CalcPower binary32 binary64 (\<lambda>n re im. (re, im)) (SpecPowerMeter 256)
        (replicate 256 (Fin 1)) (Fin (1 / 4)) (Fin (1 / 2))
      = CalcBinPower binary32 (SpecPowerMeter 256) (replicate 256 (Fin 1))
          (replicate 256 (Fin 0)) 0 128
   \<and> CalcBinPower binary32 (SpecPowerMeter 256) (replicate 256 (Fin 1))
          (replicate 256 (Fin 0)) 0 128
      = Inr (fold (\<lambda>n pwr. fadd binary32 pwr
                (bin_power binary32 (SpecPowerMeter 256) (replicate 256 (Fin 1))
                   (replicate 256 (Fin 0)) n)) [0..<128] (Fin 0))
   \<and> CalcBinPower Fin (SpecPowerMeter 256) (replicate 256 (Fin 1))
          (replicate 256 (Fin 0)) 0 128 = Inr (Fin 128)"
proof -
  let ?m = "SpecPowerMeter 256"
  have len: "mSigLen ?m = 256" by (simp add: SpecPowerMeter_def)
  have h1: "0 < mSigLen ?m \<and> binary64 (1 / 4 * of_int (mSigLen ?m)) = Fin 64 \<and> (0::real) \<le> 64
      \<and> \<lfloor>64::real\<rfloor> < 2 ^ 31"
    by (simp add: len b64_64)
  have h2: "Freq2Bin binary64 ?m (fsub binary32 (Fin (1 / 4)) (fdiv binary32 (Fin (1 / 2)) (Fin 2)))
        = Inr 0
      \<and> Freq2Bin binary64 ?m (fadd binary32 (Fin (1 / 4)) (fdiv binary32 (Fin (1 / 2)) (Fin 2)))
        = Inr 128"
    using request_bins[OF len] by simp
  have h3: "(0::int) \<le> 0 \<and> 128 \<le> mSigLen ?m" by (simp add: len)
  have h4: "\<forall>n. nat 0 \<le> n \<and> n < nat 128 \<longrightarrow>
      bin_power Fin ?m (replicate 256 (Fin 1)) (replicate 256 (Fin 0)) n = Fin ((\<lambda>n. 1) n)"
    by (simp add: bin_power_def SpecPowerMeter_def)
  have first: "Freq2Bin binary64 ?m (Fin (1 / 4)) = Inr 64
   \<and> CalcPower binary32 binary64 (\<lambda>n re im. (re, im)) ?m
        (replicate 256 (Fin 1)) (Fin (1 / 4)) (Fin (1 / 2))
      = CalcBinPower binary32 ?m (replicate 256 (Fin 1)) (replicate 256 (Fin 0)) 0 128
   \<and> CalcBinPower binary32 ?m (replicate 256 (Fin 1)) (replicate 256 (Fin 0)) 0 128
      = Inr (fold (\<lambda>n pwr. fadd binary32 pwr
                (bin_power binary32 ?m (replicate 256 (Fin 1)) (replicate 256 (Fin 0)) n))
             [0..<128] (Fin 0))
   \<and> CalcBinPower Fin ?m (replicate 256 (Fin 1)) (replicate 256 (Fin 0)) 0 128
      = Inr (Fin 128)"
    using CalcPower_bins[where m = ?m and rdd = binary64 and rd = binary32 and f = "1 / 4"
        and v = 64 and fc = "Fin (1 / 4)" and bw = "Fin (1 / 2)" and lo = 0 and hi = 128
        and fft = "\<lambda>n re im. (re, im)" and sig = "replicate 256 (Fin 1)"
        and fr = "replicate 256 (Fin 1)" and fi = "replicate 256 (Fin 0)" and p = "\<lambda>n. 1"]
      h1 h2 h3 h4
    by (simp add: len SpecPowerMeter_def del: fadd.simps fdiv.simps)
  have g1: "0 < mSigLen ?m \<and> binary64 (- (1 / 8) * of_int (mSigLen ?m)) = Fin (- 32)
      \<and> - (2 ^ 31) \<le> \<lfloor>- 32 :: real\<rfloor> \<and> \<lfloor>- 32 :: real\<rfloor> < 2 ^ 31"
    by (simp add: len b64_minus_32)
  have g2: "Freq2Bin binary64 ?m (fsub binary32 (Fin 0) (fdiv binary32 (Fin (1 / 4)) (Fin 2)))
        = Inr (- 32)
      \<and> Freq2Bin binary64 ?m (fadd binary32 (Fin 0) (fdiv binary32 (Fin (1 / 4)) (Fin 2)))
        = Inr 32"
    unfolding negative_edge using negative_bin by simp
  have g3: "(- 32 :: int) < 32 \<and> ((- 32 :: int) < 0 \<or> mSigLen ?m < 32)" by simp
  note t = CalcPower_bins[where m = ?m and rdd = binary64 and rd = binary32
        and f = "- (1 / 8)" and v = "- 32" and fc = "Fin 0" and bw = "Fin (1 / 4)"
        and lo = "- 32" and hi = 32
        and fft = "\<lambda>n re im. (re, im)" and sig = "replicate 256 (Fin 1)"
        and fr = "replicate 256 (Fin 1)" and fi = "replicate 256 (Fin 0)"]
  have s1: "Freq2Bin binary64 ?m (Fin (- (1 / 8))) = Inr (- 32)"
    using t g1 by (simp add: len)
  have s2: "CalcPower binary32 binary64 (\<lambda>n re im. (re, im)) ?m
        (replicate 256 (Fin 1)) (Fin 0) (Fin (1 / 4))
      = (let (fr, fi) = (\<lambda>n re im. (re, im)) (nat (mSigLen ?m))
                          (take (nat (mSigLen ?m)) (replicate 256 (Fin 1))) (mSigI ?m)
         in CalcBinPower binary32 ?m fr fi (- 32) (if (- 32 :: int) = 32 then - 32 + 1 else 32))"
    using t g2 by blast
  have s3: "CalcBinPower binary32 ?m (replicate 256 (Fin 1)) (replicate 256 (Fin 0)) (- 32) 32
      = Inl UndefinedBehaviour"
    using t g3 by blast
  have s4: "CalcPower binary32 binary64 (\<lambda>n re im. (re, im)) ?m
        (replicate 256 (Fin 1)) (Fin 0) (Fin (1 / 4)) = Inl UndefinedBehaviour"
    unfolding s2 using s3 by (simp add: SpecPowerMeter_def)
  have k1: "binary64 (8388608 * of_int (mSigLen ?m)) = Fin 2147483648
      \<and> (\<lfloor>2147483648 :: real\<rfloor> < - (2 ^ 31) \<or> 2 ^ 31 \<le> \<lfloor>2147483648 :: real\<rfloor>)"
    by (simp add: len b64_2_31)
  have s5: "Freq2Bin binary64 ?m (Fin 8388608) = Inl UndefinedBehaviour"
    using CalcPower_bins[where m = ?m and rdd = binary64 and f = 8388608 and v = 2147483648]
      k1 by blast
  show ?thesis using first s1 s4 s5 by blast
qed

text \<open>
  The bin of a negative edge is not \<open>floor (f * N) mod N\<close>: the edge \<open>- 1 / 8\<close> goes to the bin
  \<open>- 32\<close>, not 224, and in exact arithmetic the edge \<open>- 1 / 10\<close> to \<open>- 26\<close>, not 230. A request
  with centre 0 and bandwidth 1/4 then reads the spectrum before its first element.
\<close>

theorem CalcPower_bins_counterexample:
  "Freq2Bin binary64 (SpecPowerMeter 256) (Fin (- (1 / 8))) = Inr (- 32)
   \<and> \<lfloor>- (1 / 8) * 256 :: real\<rfloor> mod 256 = (224 :: int)
   \<and> Freq2Bin Fin (SpecPowerMeter 256) (Fin (- (1 / 10))) = Inr (- 26)
   \<and> \<lfloor>- (1 / 10) * 256 :: real\<rfloor> mod 256 = (230 :: int)
   \<and> CalcPower binary32 binary64 (\<lambda>n re im. (re, im)) (SpecPowerMeter 256)
        (replicate 256 (Fin 1)) (Fin 0) (Fin (1 / 4)) = Inl UndefinedBehaviour"
proof -
  have a: "\<lfloor>- (1 / 8) * 256 :: real\<rfloor> mod 256 = (224 :: int)" by simp
  have f: "\<lfloor>- (128 / 5) :: real\<rfloor> = - 26" by (simp add: floor_eq_iff)
  have b: "\<lfloor>- (1 / 10) * 256 :: real\<rfloor> mod 256 = (230 :: int)" using f by simp
  have c: "Freq2Bin Fin (SpecPowerMeter 256) (Fin (- (1 / 10))) = Inr (- 26)"
    using f by (simp add: Freq2Bin_def SpecPowerMeter_def c_rem_def)
  have d: "CalcPower binary32 binary64 (\<lambda>n re im. (re, im)) (SpecPowerMeter 256)
        (replicate 256 (Fin 1)) (Fin 0) (Fin (1 / 4)) = Inl UndefinedBehaviour"
    unfolding CalcPower_def negative_edge negative_bin
    by (simp add: CalcBinPower_def SpecPowerMeter_def)
  show ?thesis using negative_bin(1) a b c d by blast
qed

section \<open>The math kernels\<close>

lemma inplace_length:
  "length (fold (\<lambda>n a. a[n := h n (a ! n)]) ns a) = length a"
  by (induction ns arbitrary: a) auto

lemma inplace_nth:
  "j < length a \<Longrightarrow>
   fold (\<lambda>n a. a[n := h n (a ! n)]) [0..<len] a ! j = (if j < len then h j (a ! j) else a ! j)"
proof (induction len)
  case 0
  then show ?case by simp
next
  case (Suc len)
  then show ?case
    using inplace_length[of h "[0..<len]" a] by (auto simp: nth_list_update less_Suc_eq)
qed

lemma Add_length: "length (Add rd in1 in2 len) = length in1"
  unfolding Add_def by (rule inplace_length[where h = "\<lambda>n v. fadd rd v (in2 ! n)"])

lemma Add_nth:
  "j < length in1 \<Longrightarrow>
   Add rd in1 in2 len ! j = (if j < len then fadd rd (in1 ! j) (in2 ! j) else in1 ! j)"
  unfolding Add_def by (rule inplace_nth[where h = "\<lambda>n v. fadd rd v (in2 ! n)"])

lemma Sub_length: "length (Sub rd inp subt len) = length inp"
  unfolding Sub_def by (rule inplace_length[where h = "\<lambda>n v. fsub rd v subt"])

lemma Sub_nth:
  "j < length inp \<Longrightarrow>
   Sub rd inp subt len ! j = (if j < len then fsub rd (inp ! j) subt else inp ! j)"
  unfolding Sub_def by (rule inplace_nth[where h = "\<lambda>n v. fsub rd v subt"])


lemma Div_nth:
  "j < length inp \<Longrightarrow>
   Div rd inp d len ! j = (if j < len then fdiv rd (inp ! j) d else inp ! j)"
  unfolding Div_def by (rule inplace_nth[where h = "\<lambda>n v. fdiv rd v d"])

lemma window_length:
  "length (fold (\<lambda>n x. x[n := fmul rd (x ! n) (win ! n)]) [0..<len] x) = length x"
  by (rule inplace_length[where h = "\<lambda>n v. fmul rd v (win ! n)"])

lemma window_nth:
  "j < length x \<Longrightarrow>
   fold (\<lambda>n x. x[n := fmul rd (x ! n) (win ! n)]) [0..<len] x ! j =
     (if j < len then fmul rd (x ! j) (win ! j) else x ! j)"
  by (rule inplace_nth[where h = "\<lambda>n v. fmul rd v (win ! n)"])

lemma zero_length: "length (fold (\<lambda>n y. y[n := Fin 0]) [0..<len] y) = length y"
  by (rule inplace_length[where h = "\<lambda>n v. Fin 0"])

lemma zero_nth:
  "j < length y \<Longrightarrow>
   fold (\<lambda>n y. y[n := Fin 0]) [0..<len] y ! j = (if j < len then Fin 0 else y ! j)"
  by (rule inplace_nth[where h = "\<lambda>n v. Fin 0"])

lemma accumulate_length:
  "length (fold (\<lambda>n y. Add rd y (drop (n * outlen) x1) outlen) ns y) = length y"
  by (induction ns arbitrary: y) (auto simp: Add_length)

lemma accumulate_nth:
  assumes "j < length y" and "p * outlen \<le> length x1"
  shows "fold (\<lambda>n y. Add rd y (drop (n * outlen) x1) outlen) [0..<p] y ! j =
     (if j < outlen then fold (\<lambda>n acc. fadd rd acc (x1 ! (n * outlen + j))) [0..<p] (y ! j)
      else y ! j)"
  using assms(2)
proof (induction p)
  case 0
  then show ?case by simp
next
  case (Suc p)
  let ?z = "fold (\<lambda>n y. Add rd y (drop (n * outlen) x1) outlen) [0..<p] y"
  have l: "j < length ?z" using assms(1) by (simp add: accumulate_length)
  have b: "p * outlen \<le> length x1" using Suc.prems by simp
  show ?case using Suc.IH[OF b] Add_nth[OF l, of rd "drop (p * outlen) x1" outlen] b
    by simp
qed

lemma FilterPolyphase_length:
  "length (fst (FilterPolyphase rd x y win p len)) = length x
   \<and> length (snd (FilterPolyphase rd x y win p len)) = length y"
  by (simp add: FilterPolyphase_def Let_def window_length accumulate_length zero_length)

lemma FilterPolyphase_nth:
  assumes "j < length y" and "p * (len div p) \<le> length x"
  shows "snd (FilterPolyphase rd x y win p len) ! j =
     (if j < len div p
      then fold (\<lambda>n acc. fadd rd acc
                  (fold (\<lambda>n x. x[n := fmul rd (x ! n) (win ! n)]) [0..<len] x ! (n * (len div p) + j)))
             [0..<p] (Fin 0)
      else y ! j)"
  using assms
  by (simp add: FilterPolyphase_def Let_def accumulate_nth zero_length window_length zero_nth)

lemma Preprocess_aux:
  "mAuxBuffer (Preprocess rd st) =
     (let y = snd (FilterPolyphase rd (mSigBuffer st) (mAuxBuffer st) (mWinBuffer st)
                     cPolyTaps cSiglen);
          y1 = Sub rd y (Mean rd y mFiltSiglen) mFiltSiglen
      in Div rd y1 (Rms rd y1 mFiltSiglen) mFiltSiglen)"
  by (simp add: Preprocess_def Let_def split: prod.splits)


section \<open>Division by the Rms value\<close>

text \<open>
  Claim C1, as the code has it. In the preprocessing of a pass (\<open>Preprocess\<close>, which
  \<open>Run_mono\<close> and \<open>Run_stereo\<close> both apply), each of the 256 elements of the folded buffer
  without its mean is divided by the Rms value, whatever that value is: nothing tests it for
  0, and with an Rms value of 0 an element 0 becomes a NaN.
\<close>

theorem Preprocess_divides:
  assumes "length (mAuxBuffer st) = cSiglen"
  shows "let y = snd (FilterPolyphase rd (mSigBuffer st) (mAuxBuffer st) (mWinBuffer st)
                       cPolyTaps cSiglen);
             y1 = Sub rd y (Mean rd y mFiltSiglen) mFiltSiglen;
             rms = Rms rd y1 mFiltSiglen;
             out = mAuxBuffer (Preprocess rd st)
         in mFiltSiglen = 256
            \<and> (\<forall>n<mFiltSiglen. out ! n = fdiv rd (y1 ! n) rms)
            \<and> (\<forall>n<mFiltSiglen. rms = Fin 0 \<and> y1 ! n = Fin 0 \<longrightarrow> out ! n = NaN)"
proof -
  define y where "y = snd (FilterPolyphase rd (mSigBuffer st) (mAuxBuffer st) (mWinBuffer st)
                       cPolyTaps cSiglen)"
  define y1 where "y1 = Sub rd y (Mean rd y mFiltSiglen) mFiltSiglen"
  have f: "mFiltSiglen = 256" by (simp add: mFiltSiglen_def cSiglen_def cPolyTaps_def)
  have l: "length y1 = 1024"
    using assms by (simp add: y1_def y_def Sub_length FilterPolyphase_length cSiglen_def)
  have out: "mAuxBuffer (Preprocess rd st) = Div rd y1 (Rms rd y1 mFiltSiglen) mFiltSiglen"
    by (simp add: Preprocess_aux y1_def y_def Let_def)
  have d: "\<forall>n<mFiltSiglen. mAuxBuffer (Preprocess rd st) ! n = fdiv rd (y1 ! n) (Rms rd y1 mFiltSiglen)"
    using l f by (simp add: out Div_nth)
  then have z: "\<forall>n<mFiltSiglen. Rms rd y1 mFiltSiglen = Fin 0 \<and> y1 ! n = Fin 0 \<longrightarrow>
      mAuxBuffer (Preprocess rd st) ! n = NaN"
    by simp
  show ?thesis
    unfolding Let_def y_def[symmetric] y1_def[symmetric] using f d z by blast
qed

text \<open>Buffers of zeros, under a rounding that keeps 0 and 256.\<close>

lemma fold_fadd_zero:
  assumes "rd 0 = Fin 0" and "\<And>n. n \<in> set ns \<Longrightarrow> g n = Fin 0"
  shows "fold (\<lambda>n acc. fadd rd acc (g n)) ns (Fin 0) = Fin 0"
  using assms(2) by (induction ns) (simp_all add: assms(1))

lemma zeros_FilterPolyphase:
  assumes "rd 0 = Fin 0"
  shows "snd (FilterPolyphase rd (replicate 1024 (Fin 0)) (replicate 1024 (Fin 0))
                (replicate 1024 (Fin 0)) 4 1024) = replicate 1024 (Fin 0)"
proof (rule nth_equalityI)
  show "length (snd (FilterPolyphase rd (replicate 1024 (Fin 0)) (replicate 1024 (Fin 0))
                (replicate 1024 (Fin 0)) 4 1024)) = length (replicate 1024 (Fin 0 :: fl))"
    by (simp add: FilterPolyphase_length)
next
  fix j
  assume "j < length (snd (FilterPolyphase rd (replicate 1024 (Fin 0)) (replicate 1024 (Fin 0))
                (replicate 1024 (Fin 0)) 4 1024))"
  then have j: "j < 1024" by (simp add: FilterPolyphase_length)
  have w: "\<And>i. i < 1024 \<Longrightarrow>
      fold (\<lambda>n x. x[n := fmul rd (x ! n) (replicate 1024 (Fin 0) ! n)]) [0..<1024]
        (replicate 1024 (Fin 0)) ! i = Fin 0"
    by (subst window_nth) (simp_all add: assms)
  have "j < 256 \<Longrightarrow>
      fold (\<lambda>n acc. fadd rd acc
              (fold (\<lambda>n x. x[n := fmul rd (x ! n) (replicate 1024 (Fin 0) ! n)]) [0..<1024]
                 (replicate 1024 (Fin 0)) ! (n * 256 + j)))
        [0..<4] (Fin 0) = Fin 0"
    by (rule fold_fadd_zero[where rd = rd, OF assms]) (auto intro!: w)
  then show "snd (FilterPolyphase rd (replicate 1024 (Fin 0)) (replicate 1024 (Fin 0))
                (replicate 1024 (Fin 0)) 4 1024) ! j = replicate 1024 (Fin 0) ! j"
    using j by (subst FilterPolyphase_nth) simp_all
qed

lemma zeros_Mean:
  assumes "rd 0 = Fin 0" and "rd 256 = Fin 256"
  shows "Mean rd (replicate 1024 (Fin 0)) 256 = Fin 0"
proof -
  have "fold (\<lambda>n mean. fadd rd mean (replicate 1024 (Fin 0) ! n)) [0..<256] (Fin 0) = Fin 0"
    by (rule fold_fadd_zero[where rd = rd, OF assms(1)]) simp
  then show ?thesis by (simp add: Mean_def assms)
qed

lemma zeros_Sub:
  assumes "rd 0 = Fin 0"
  shows "Sub rd (replicate 1024 (Fin 0)) (Fin 0) 256 = replicate 1024 (Fin 0)"
  by (rule nth_equalityI) (simp_all add: Sub_length Sub_nth fsub_def assms)

lemma zeros_Rms:
  assumes "rd 0 = Fin 0"
  shows "Rms rd (replicate 1024 (Fin 0)) 256 = Fin 0"
proof -
  have "fold (\<lambda>n rms. fadd rd rms (fmul rd (replicate 1024 (Fin 0) ! n)
            (replicate 1024 (Fin 0) ! n))) [0..<256] (Fin 0) = Fin 0"
    by (rule fold_fadd_zero[where rd = rd, OF assms]) (simp add: assms)
  then show ?thesis by (simp add: Rms_def assms)
qed

lemma silent_buffers:
  "mSigBuffer (FormatClassifier_new bytes host mf sf) = replicate 1024 (Fin 0)
   \<and> mAuxBuffer (FormatClassifier_new bytes host mf sf) = replicate 1024 (Fin 0)
   \<and> mWinBuffer (FormatClassifier_new bytes host mf sf) = replicate 1024 (Fin 0)"
  by (simp add: FormatClassifier_new_def cSiglen_def)

lemma filter_sizes: "cPolyTaps = 4 \<and> cSiglen = 1024 \<and> mFiltSiglen = 256"
  by (simp add: mFiltSiglen_def cSiglen_def cPolyTaps_def)

lemmas zeros_binary32 =
  zeros_FilterPolyphase[where rd = binary32, OF b32_zero]
  zeros_Mean[where rd = binary32, OF b32_zero b32_256]
  zeros_Sub[where rd = binary32, OF b32_zero]
  zeros_Rms[where rd = binary32, OF b32_zero]

lemmas sizes = cSiglen_def cPolyTaps_def mFiltSiglen_def

text \<open>The theorem at the silent buffers the constructor starts with, in binary32.\<close>

theorem Preprocess_divides_witness:
  "(let st = FormatClassifier_new [] Little [] [];
        y = snd (FilterPolyphase binary32 (mSigBuffer st) (mAuxBuffer st) (mWinBuffer st)
                   cPolyTaps cSiglen);
        y1 = Sub binary32 y (Mean binary32 y mFiltSiglen) mFiltSiglen
    in length (mAuxBuffer st) = cSiglen
       \<and> mAuxBuffer (Preprocess binary32 st) ! 7 = fdiv binary32 (y1 ! 7) (Rms binary32 y1 mFiltSiglen)
       \<and> Rms binary32 y1 mFiltSiglen = Fin 0 \<and> y1 ! 7 = Fin 0
       \<and> mAuxBuffer (Preprocess binary32 st) ! 7 = NaN)"
proof -
  define st where "st = FormatClassifier_new [] Little [] []"
  have b: "mSigBuffer st = replicate 1024 (Fin 0)" "mAuxBuffer st = replicate 1024 (Fin 0)"
    "mWinBuffer st = replicate 1024 (Fin 0)"
    using silent_buffers[of "[]" Little "[]" "[]"] by (simp_all add: st_def)
  have l: "length (mAuxBuffer st) = cSiglen" by (simp add: b cSiglen_def)
  show ?thesis
    unfolding st_def[symmetric] Let_def
    using Preprocess_divides[OF l, of binary32] l
    by (simp add: Let_def b sizes zeros_binary32)
qed

text \<open>
  The claim as stated: with an Rms value of 0 the division is skipped. For a silent signal
  the folded buffer without its mean is all zeros and its Rms value is 0; the division is
  done all the same and turns each 0 into a NaN.
\<close>

theorem Preprocess_divides_counterexample:
  "(let st = FormatClassifier_new [] Little [] [];
        y = snd (FilterPolyphase binary32 (mSigBuffer st) (mAuxBuffer st) (mWinBuffer st)
                   cPolyTaps cSiglen);
        y1 = Sub binary32 y (Mean binary32 y mFiltSiglen) mFiltSiglen
    in Rms binary32 y1 mFiltSiglen = Fin 0
       \<and> y1 = replicate 1024 (Fin 0)
       \<and> mAuxBuffer (Preprocess binary32 st) ! 0 = NaN
       \<and> mAuxBuffer (Preprocess binary32 st) \<noteq> y1)"
proof -
  define st where "st = FormatClassifier_new [] Little [] []"
  have b: "mSigBuffer st = replicate 1024 (Fin 0)" "mAuxBuffer st = replicate 1024 (Fin 0)"
    "mWinBuffer st = replicate 1024 (Fin 0)"
    using silent_buffers[of "[]" Little "[]" "[]"] by (simp_all add: st_def)
  have o: "mAuxBuffer (Preprocess binary32 st) ! 0 = NaN"
    by (simp add: Preprocess_aux Let_def b sizes zeros_binary32 Div_nth)
  then have "mAuxBuffer (Preprocess binary32 st) ! 0 \<noteq> replicate 1024 (Fin 0) ! 0" by simp
  then have n: "mAuxBuffer (Preprocess binary32 st) \<noteq> replicate 1024 (Fin 0)" by metis
  show ?thesis
    unfolding st_def[symmetric] Let_def using o n by (simp add: b sizes zeros_binary32)
qed

section \<open>The normalized signal\<close>

















text \<open>
  An Rms value other than 0 need not be a number. A signal of infinities (a Float candidate
  that reads the pattern of +infinity) folds to infinities; without their mean these are
  NaN, the Rms value is NaN, which is not 0, and the normalized buffer has neither mean 0
  nor Rms 1.
\<close>

lemma fadd_NaN_right: "fadd rd a NaN = NaN"
  by (cases a) auto

lemma fold_fadd_NaN:
  "ns \<noteq> [] \<Longrightarrow> (\<And>n. n \<in> set ns \<Longrightarrow> g n = NaN) \<Longrightarrow>
   fold (\<lambda>n acc. fadd rd acc (g n)) ns a = NaN"
proof (induction ns arbitrary: a)
  case Nil
  then show ?case by simp
next
  case (Cons n ns)
  show ?case
  proof (cases "ns = []")
    case True
    then show ?thesis using Cons.prems by (simp add: fadd_NaN_right)
  next
    case False
    then show ?thesis using Cons by simp
  qed
qed

lemma fold_fadd_PInf:
  "ns \<noteq> [] \<Longrightarrow> (\<And>n. n \<in> set ns \<Longrightarrow> g n = PInf) \<Longrightarrow> a = Fin s \<or> a = PInf \<Longrightarrow>
   fold (\<lambda>n acc. fadd rd acc (g n)) ns a = PInf"
proof (induction ns arbitrary: a s)
  case Nil
  then show ?case by simp
next
  case (Cons n ns)
  have st: "fadd rd a (g n) = PInf" using Cons.prems by auto
  show ?case
  proof (cases "ns = []")
    case True
    then show ?thesis using st by simp
  next
    case False
    then show ?thesis using Cons.IH[of PInf] Cons.prems st by simp
  qed
qed

lemma infinite_fold:
  assumes "j < 256"
  shows "snd (FilterPolyphase binary32 (replicate 1024 PInf) (replicate 1024 (Fin 0))
                (replicate 1024 (Fin 1)) 4 1024) ! j = PInf"
proof -
  have w: "\<And>i. i < 1024 \<Longrightarrow>
      fold (\<lambda>n x. x[n := fmul binary32 (x ! n) (replicate 1024 (Fin 1) ! n)]) [0..<1024]
        (replicate 1024 PInf) ! i = PInf"
    by (subst window_nth) simp_all
  have "fold (\<lambda>n acc. fadd binary32 acc
              (fold (\<lambda>n x. x[n := fmul binary32 (x ! n) (replicate 1024 (Fin 1) ! n)]) [0..<1024]
                 (replicate 1024 PInf) ! (n * 256 + j)))
        [0..<4] (Fin 0) = PInf"
    using assms by (intro fold_fadd_PInf[where s = 0]) (auto intro!: w)
  then show ?thesis
    using assms by (subst FilterPolyphase_nth) simp_all
qed

lemma Preprocess_infinite_rms:
  "(let st = (FormatClassifier_new [] Little [] [])
               \<lparr>mSigBuffer := replicate cSiglen PInf,
                mWinBuffer := replicate cSiglen (Fin 1)\<rparr>;
        y = snd (FilterPolyphase binary32 (mSigBuffer st) (mAuxBuffer st) (mWinBuffer st)
                   cPolyTaps cSiglen);
        rms = Rms binary32 (Sub binary32 y (Mean binary32 y mFiltSiglen) mFiltSiglen)
                mFiltSiglen;
        out = mAuxBuffer (Preprocess binary32 st)
    in rms = NaN \<and> fne rms (Fin 0)
       \<and> Mean binary32 out mFiltSiglen = NaN
       \<and> Rms binary32 out mFiltSiglen = NaN)"
proof -
  define st where "st = (FormatClassifier_new [] Little [] [])
               \<lparr>mSigBuffer := replicate cSiglen PInf,
                mWinBuffer := replicate cSiglen (Fin 1)\<rparr>"
  define y where "y = snd (FilterPolyphase binary32 (mSigBuffer st) (mAuxBuffer st)
                   (mWinBuffer st) 4 1024)"
  define y1 where "y1 = Sub binary32 y (Mean binary32 y 256) 256"
  define out where "out = Div binary32 y1 (Rms binary32 y1 256) 256"
  have b: "mSigBuffer st = replicate 1024 PInf" "mAuxBuffer st = replicate 1024 (Fin 0)"
    "mWinBuffer st = replicate 1024 (Fin 1)"
    using silent_buffers[of "[]" Little "[]" "[]"] by (simp_all add: st_def cSiglen_def)
  have ly: "length y = 1024" by (simp add: y_def FilterPolyphase_length b)
  have yn: "\<And>n. n < 256 \<Longrightarrow> y ! n = PInf"
    using infinite_fold by (simp add: y_def b sizes)
  have "fold (\<lambda>n mean. fadd binary32 mean (y ! n)) [0..<256] (Fin 0) = PInf"
    by (intro fold_fadd_PInf[where s = 0]) (simp_all add: yn)
  then have m: "Mean binary32 y 256 = PInf" by (simp add: Mean_def b32_256)
  have y1n: "\<And>n. n < 256 \<Longrightarrow> y1 ! n = NaN"
    using ly by (simp add: y1_def Sub_nth m yn fsub_def)
  have "fold (\<lambda>n rms. fadd binary32 rms (fmul binary32 (y1 ! n) (y1 ! n))) [0..<256] (Fin 0) = NaN"
    by (intro fold_fadd_NaN) (simp_all add: y1n)
  then have r: "Rms binary32 y1 256 = NaN" by (simp add: Rms_def)
  have l1: "length y1 = 1024" by (simp add: y1_def Sub_length ly)
  have on: "\<And>n. n < 256 \<Longrightarrow> out ! n = NaN"
    using l1 by (simp add: out_def Div_nth r y1n)
  have "fold (\<lambda>n mean. fadd binary32 mean (out ! n)) [0..<256] (Fin 0) = NaN"
    by (intro fold_fadd_NaN) (simp_all add: on)
  then have mo: "Mean binary32 out 256 = NaN" by (simp add: Mean_def)
  have "fold (\<lambda>n rms. fadd binary32 rms (fmul binary32 (out ! n) (out ! n))) [0..<256] (Fin 0) = NaN"
    by (intro fold_fadd_NaN) (simp_all add: on)
  then have ro: "Rms binary32 out 256 = NaN" by (simp add: Rms_def)
  have o: "mAuxBuffer (Preprocess binary32 st) = out"
    by (simp add: Preprocess_aux Let_def out_def y1_def y_def sizes)
  have e: "mFiltSiglen = 256" "cPolyTaps = 4" by (simp_all add: sizes)
  have c: "FilterPolyphase binary32 (mSigBuffer st) (mAuxBuffer st) (mWinBuffer st) 4 cSiglen
      = FilterPolyphase binary32 (mSigBuffer st) (mAuxBuffer st) (mWinBuffer st) 4 1024"
    by (simp add: cSiglen_def)
  show ?thesis
    unfolding st_def[symmetric] Let_def
    unfolding e c
    unfolding y_def[symmetric]
    unfolding y1_def[symmetric]
    using r mo ro o e by (simp add: fne_def feq_def)
qed

section \<open>Values that binary formats hold\<close>

lemma pow2_add: "pow2 (a + b) = pow2 a * pow2 b"
  by (simp add: pow2_powr powr_add)

lemma pow2_nat: "0 \<le> d \<Longrightarrow> pow2 d = of_int (2 ^ nat d)"
  by (simp add: pow2_def)

lemma round_binary_exact:
  assumes "m \<noteq> 0" and "\<bar>m\<bar> < 2 ^ p" and "emin - int p + 1 \<le> q" and "q + int p \<le> emax + 1"
  shows "round_binary p emin emax (of_int m * pow2 q) = Fin (of_int m * pow2 q)"
proof -
  define x where "x = of_int m * pow2 q"
  define e where "e = max \<lfloor>log 2 \<bar>x\<bar>\<rfloor> emin"
  define d where "d = q - (e - int p + 1)"
  have nz: "x \<noteq> 0" using assms(1) pow2_pos[of q] by (simp add: x_def)
  have "real_of_int \<bar>m\<bar> < 2 ^ p" using assms(2) by (metis of_int_less_numeral_power_cancel_iff)
  then have "\<bar>real_of_int m\<bar> < pow2 (int p)" by (simp add: pow2_def)
  then have "\<bar>real_of_int m\<bar> * pow2 q < pow2 (int p) * pow2 q"
    using pow2_pos[of q] by simp
  then have ub: "\<bar>x\<bar> < pow2 (q + int p)"
    using pow2_pos[of q] by (simp add: x_def abs_mult pow2_add mult.commute)
  then have "log 2 \<bar>x\<bar> < of_int (q + int p)"
    using nz by (simp add: pow2_powr log_less_iff)
  then have "\<lfloor>log 2 \<bar>x\<bar>\<rfloor> < q + int p" by (simp add: floor_less_iff)
  then have d0: "0 \<le> d" using assms(3) by (simp add: d_def e_def)
  have "pow2 q = pow2 d * pow2 (e - int p + 1)"
    unfolding pow2_add[symmetric] by (simp add: d_def)
  then have xs: "x = of_int (m * 2 ^ nat d) * pow2 (e - int p + 1)"
    using pow2_nat[OF d0] by (simp add: x_def)
  have "x / pow2 (e - int p + 1) = of_int (m * 2 ^ nat d)"
    using pow2_pos[of "e - int p + 1"] by (subst xs) simp
  then have r: "round_even (x / pow2 (e - int p + 1)) = m * 2 ^ nat d"
    by (simp only: round_even_int)
  have "pow2 (q + int p) \<le> pow2 (emax + 1)"
    using assms(4) pow2_less[of "q + int p" "emax + 1"] by (cases "q + int p = emax + 1") auto
  then have no: "\<not> pow2 (emax + 1) \<le> \<bar>x\<bar>" using ub by linarith
  show ?thesis
    unfolding x_def[symmetric]
    unfolding round_binary_def Let_def e_def[symmetric] r xs[symmetric]
    using nz no by simp
qed

lemma binary32_exact:
  "m \<noteq> 0 \<Longrightarrow> \<bar>m\<bar> < 2 ^ 24 \<Longrightarrow> - 149 \<le> q \<Longrightarrow> q \<le> 104 \<Longrightarrow>
   binary32 (of_int m * pow2 q) = Fin (of_int m * pow2 q)"
  unfolding binary32_def by (rule round_binary_exact) simp_all

lemma b32_1: "binary32 1 = Fin 1"
  using binary32_exact[of 1 0] by (simp add: pow2_def)

lemma b32_2: "binary32 2 = Fin 2"
  using binary32_exact[of 2 0] by (simp add: pow2_def)












section \<open>The equalizer mask\<close>

lemma mask_pass_eq:
  assumes "n < length buffer"
  shows "CalcEqualizerMask_pass rd len fLen A m n buffer =
           buffer[n := mask_value rd fLen A m n (buffer ! n),
                  len - n - 1 := mask_value rd fLen A m n (buffer ! n)]"
  using assms by (simp add: CalcEqualizerMask_pass_def mask_value_def Let_def)

lemma mask_fold_length:
  "length (fold (CalcEqualizerMask_pass rd len fLen A m) ns buffer) = length buffer"
  by (induction ns arbitrary: buffer) (simp_all add: CalcEqualizerMask_pass_def Let_def)

lemma mask_fold_nth:
  assumes "length buffer = len"
  shows "2 * k \<le> len \<Longrightarrow> j < len \<Longrightarrow>
     fold (CalcEqualizerMask_pass rd len fLen A m) [0..<k] buffer ! j =
     (if j < k then mask_value rd fLen A m j (buffer ! j)
      else if len - k \<le> j
           then mask_value rd fLen A m (len - 1 - j) (buffer ! (len - 1 - j))
           else buffer ! j)"
proof (induction k arbitrary: j)
  case 0
  then show ?case by simp
next
  case (Suc k)
  let ?b = "fold (CalcEqualizerMask_pass rd len fLen A m) [0..<k] buffer"
  let ?v = "mask_value rd fLen A m k (buffer ! k)"
  have l: "length ?b = len" using assms by (simp add: mask_fold_length)
  have k2: "2 * k \<le> len" and kl: "k < len - k - 1" and klen: "k < len"
    using Suc.prems by auto
  have nk: "\<not> len - k \<le> k" using kl by arith
  have bk: "?b ! k = buffer ! k"
    using Suc.IH[OF k2 klen] nk by simp
  have step: "fold (CalcEqualizerMask_pass rd len fLen A m) [0..<Suc k] buffer
      = ?b[k := ?v, len - k - 1 := ?v]"
    using mask_pass_eq[of k ?b rd len fLen A m] klen l by (simp add: bk)
  have IHj: "?b ! j =
     (if j < k then mask_value rd fLen A m j (buffer ! j)
      else if len - k \<le> j
           then mask_value rd fLen A m (len - 1 - j) (buffer ! (len - 1 - j))
           else buffer ! j)"
    using Suc.IH[OF k2 Suc.prems(2)] .
  consider (a) "j = k" | (b) "j = len - k - 1" | (c) "j \<noteq> k" "j \<noteq> len - k - 1" by blast
  then show ?case
  proof cases
    case a
    then show ?thesis using step l klen kl by (simp add: nth_list_update)
  next
    case b
    have "len - 1 - j = k" using b klen kl by simp
    then show ?thesis using step l klen kl b by (simp add: nth_list_update)
  next
    case c
    have "fold (CalcEqualizerMask_pass rd len fLen A m) [0..<Suc k] buffer ! j = ?b ! j"
      using step c by (simp add: nth_list_update)
    then show ?thesis using IHj c Suc.prems by (auto simp: less_Suc_eq)
  qed
qed

lemma flt_fge: "flt a b \<Longrightarrow> \<not> fge a b"
  by (cases a; cases b) (auto simp: fge_def feq_def)

lemma flt_fge_trans: "flt f a \<Longrightarrow> fge f b \<Longrightarrow> flt b a"
  by (cases a; cases b; cases f) (auto simp: fge_def feq_def)

lemma mask_value_exact: "is_fin (mask_value Fin (Fin 256) (Fin a) (Fin m) n old)"
  by (simp add: mask_value_def Let_def cDitherF1_def cDitherF2_def fge_def feq_def fsub_def)

lemma is_fin_feq: "is_fin a \<and> a = b \<Longrightarrow> feq a b"
  by (cases a) (auto simp: feq_def)

lemma mask_fold_256:
  assumes "length buffer = 256" and "k < 256"
  shows "fold (CalcEqualizerMask_pass rd 256 fLen A m) [0..<128] buffer ! k =
     (if k < 128 then mask_value rd fLen A m k (buffer ! k)
      else mask_value rd fLen A m (256 - 1 - k) (buffer ! (256 - 1 - k)))"
proof (cases "k < 128")
  case True
  then show ?thesis using mask_fold_nth[OF assms(1), of 128 k rd fLen A m] by simp
next
  case False
  then have "256 - 128 \<le> k" by simp
  then show ?thesis using mask_fold_nth[OF assms(1), of 128 k rd fLen A m] False assms(2)
    by simp
qed

lemma mask_fold_mirror:
  assumes "length buffer = 256" and "k < 256"
  shows "fold (CalcEqualizerMask_pass rd 256 fLen A m) [0..<128] buffer ! (256 - 1 - k) =
         fold (CalcEqualizerMask_pass rd 256 fLen A m) [0..<128] buffer ! k"
proof (cases "k < 128")
  case True
  have i: "256 - 1 - k < 256" "\<not> 256 - 1 - k < 128" "256 - 1 - (256 - 1 - k) = k"
    using True by arith+
  show ?thesis
    unfolding mask_fold_256[OF assms(1) i(1)] mask_fold_256[OF assms] using i(2) True
    by (simp only: i(3) if_False if_True)
next
  case False
  have i: "256 - 1 - k < 256" "256 - 1 - k < 128"
    using False assms(2) by arith+
  show ?thesis
    unfolding mask_fold_256[OF assms(1) i(1)] mask_fold_256[OF assms] using i(2) False
    by (simp only: if_False if_True)
qed


lemma mask_cases:
  assumes "\<not> flt (cDitherF2 rd) (cDitherF1 rd)"
  shows "(flt f (cDitherF1 rd) \<longrightarrow> mask_value rd fLen A m n old = Fin 1 \<or> fdiv rd (rd (real n)) fLen \<noteq> f)
    \<and> (fge f (cDitherF1 rd) \<and> flt f (cDitherF2 rd) \<longrightarrow>
         mask_value rd fLen A m n old = fadd rd (fmul rd m (fsub rd f (cDitherF1 rd))) (Fin 1)
         \<or> fdiv rd (rd (real n)) fLen \<noteq> f)
    \<and> (fge f (cDitherF2 rd) \<longrightarrow> mask_value rd fLen A m n old = A \<or> fdiv rd (rd (real n)) fLen \<noteq> f)"
  using flt_fge[of f "cDitherF1 rd"] flt_fge[of f "cDitherF2 rd"]
    flt_fge_trans[of f "cDitherF1 rd" "cDitherF2 rd"] assms
  by (auto simp: mask_value_def Let_def)

lemma exact_mask:
  "CalcEqualizerMask Fin buffer 256 =
     fold (CalcEqualizerMask_pass Fin 256 (Fin 256) (Fin (10 powr (- 12 / 20)))
             (Fin ((10 powr (- 12 / 20) - 1) / (42 / 100 - 31 / 100)))) [0..<128] buffer"
  by (simp add: CalcEqualizerMask_def Let_def cDitherA_def cDitherF1_def cDitherF2_def fsub_def)

lemma exact_mask_fin:
  assumes "length buffer = 256" and "k < 256"
  shows "is_fin (CalcEqualizerMask Fin buffer 256 ! k)"
  unfolding exact_mask mask_fold_256[OF assms]
  using mask_value_exact by simp

lemma b32_nat: "n < 2 ^ 24 \<Longrightarrow> binary32 (real n) = Fin (real n)"
proof (cases "n = 0")
  case True
  then show ?thesis by (simp add: b32_zero)
next
  case False
  assume "n < 2 ^ 24"
  then have "\<bar>int n\<bar> < 2 ^ 24" by (simp add: of_nat_less_numeral_power_cancel_iff)
  then show ?thesis using binary32_exact[of "int n" 0] False by (simp add: pow2_def)
qed

lemma round_even_close:
  "z - 1 / 2 \<le> real_of_int (round_even z) \<and> real_of_int (round_even z) \<le> z + 1 / 2"
proof -
  have f: "real_of_int \<lfloor>z\<rfloor> \<le> z" "z < real_of_int \<lfloor>z\<rfloor> + 1" by linarith+
  show ?thesis
  proof (cases "z - real_of_int \<lfloor>z\<rfloor> < 1 / 2")
    case True
    then have "round_even z = \<lfloor>z\<rfloor>" by (simp add: round_even_def Let_def)
    then show ?thesis using f True by linarith
  next
    case False
    then have "round_even z = \<lfloor>z\<rfloor> + 1
        \<or> (round_even z = \<lfloor>z\<rfloor> \<and> z - real_of_int \<lfloor>z\<rfloor> = 1 / 2)"
      by (auto simp: round_even_def Let_def)
    then show ?thesis
    proof
      assume "round_even z = \<lfloor>z\<rfloor> + 1"
      then have "real_of_int (round_even z) = real_of_int \<lfloor>z\<rfloor> + 1" by simp
      then show ?thesis using f False by linarith
    next
      assume "round_even z = \<lfloor>z\<rfloor> \<and> z - real_of_int \<lfloor>z\<rfloor> = 1 / 2"
      then show ?thesis using f by linarith
    qed
  qed
qed

lemma b32_031: "binary32 (31 / 100) = Fin (10401874 / 2 ^ 25)"
  unfolding binary32_def
  by (subst round_binary_value[where e = "-2" and k = 10401874])
     (simp_all add: pow2_def round_even_def)

lemma b32_042: "binary32 (42 / 100) = Fin (14092861 / 2 ^ 25)"
  unfolding binary32_def
  by (subst round_binary_value[where e = "-2" and k = 14092861])
     (simp_all add: pow2_def round_even_def)



lemma binary32_near:
  assumes "\<bar>x\<bar> < 2 ^ 24"
  shows "\<exists>y. binary32 x = Fin y \<and> \<bar>y - x\<bar> \<le> 1 / 2"
proof (cases "x = 0")
  case True
  then show ?thesis by (simp add: b32_zero)
next
  case False
  define e where "e = max \<lfloor>log 2 \<bar>x\<bar>\<rfloor> (- 126)"
  define u where "u = pow2 (e - int 24 + 1)"
  define y where "y = of_int (round_even (x / u)) * u"
  have xp: "0 < \<bar>x\<bar>" using False by simp
  have "log 2 \<bar>x\<bar> < 24" using assms xp by (simp add: log_less_iff)
  then have "\<lfloor>log 2 \<bar>x\<bar>\<rfloor> < 24" by (simp add: floor_less_iff)
  then have e: "e < 24" unfolding e_def by linarith
  have up: "0 < u" by (simp add: u_def pow2_pos)
  have "u \<le> pow2 0"
    using e pow2_less[of "e - int 24 + 1" 0] by (cases "e - int 24 + 1 = 0") (auto simp: u_def)
  then have u1: "u \<le> 1" by (simp add: pow2_def)
  note c = round_even_close[of "x / u"]
  have "(x / u - 1 / 2) * u \<le> y"
    unfolding y_def using c up by (intro mult_right_mono) simp_all
  then have lo: "x - u / 2 \<le> y" using up by (simp add: algebra_simps)
  have "y \<le> (x / u + 1 / 2) * u"
    unfolding y_def using c up by (intro mult_right_mono) simp_all
  then have hi: "y \<le> x + u / 2" using up by (simp add: algebra_simps)
  have near: "\<bar>y - x\<bar> \<le> 1 / 2" using lo hi u1 up by linarith
  have n24: "(2::real) ^ 24 = 16777216" and n25: "(2::real) ^ 25 = 33554432" by simp_all
  have "\<bar>y\<bar> < 2 ^ 25" using assms near unfolding n24 n25 by linarith
  moreover have "(2::real) ^ 25 \<le> pow2 (127 + 1)" by (simp add: pow2_def)
  ultimately have no: "\<not> pow2 (127 + 1) \<le> \<bar>y\<bar>" by linarith
  have "binary32 x = Fin y"
    unfolding binary32_def round_binary_def Let_def
    unfolding e_def[symmetric] u_def[symmetric] y_def[symmetric]
    using False no by simp
  then show ?thesis using near by blast
qed

lemma binary32_bounded:
  assumes "\<bar>x\<bar> \<le> b" and "b < 16777216"
  shows "\<exists>y. binary32 x = Fin y \<and> \<bar>y\<bar> \<le> b + 1 / 2"
proof -
  have "\<bar>x\<bar> < 2 ^ 24" using assms by simp
  then obtain y where "binary32 x = Fin y" "\<bar>y - x\<bar> \<le> 1 / 2"
    using binary32_near by blast
  then show ?thesis using assms(1) by (intro exI[of _ y]) linarith
qed

lemma b32_dither:
  "cDitherF1 binary32 = Fin (10401874 / 2 ^ 25)" "cDitherF2 binary32 = Fin (14092861 / 2 ^ 25)"
  unfolding cDitherF1_def cDitherF2_def by (rule b32_031, rule b32_042)

lemma b32_dither_band:
  "fsub binary32 (cDitherF2 binary32) (cDitherF1 binary32) = Fin (3690987 / 2 ^ 25)"
  unfolding b32_dither fsub_def
  using binary32_exact[of 3690987 "- 25"] by (simp add: pow2_def)

lemma mask_value_fin:
  assumes "fdiv rd (rd (real n)) fLen = Fin fv"
    and "cDitherF1 rd = Fin c1" and "cDitherF2 rd = Fin c2"
    and "is_fin A"
    and "is_fin (fadd rd (fmul rd m (fsub rd (Fin fv) (Fin c1))) (Fin 1))"
  shows "is_fin (mask_value rd fLen A m n old)"
  unfolding mask_value_def Let_def assms(1,2,3)
  using assms(4,5) by (auto simp: fge_def feq_def)

lemma mask_value_binary32:
  assumes "n < 128"
  shows "is_fin (mask_value binary32 (binary32 256)
           (fpow binary32 (Fin 10) (fdiv binary32 (fneg cDitherA) (Fin 20)))
           (fdiv binary32
              (fsub binary32 (fpow binary32 (Fin 10) (fdiv binary32 (fneg cDitherA) (Fin 20)))
                 (Fin 1))
              (fsub binary32 (cDitherF2 binary32) (cDitherF1 binary32)))
           n old)"
proof -
  obtain q where q: "binary32 (- 12 / 20) = Fin q" "\<bar>q - (- 12 / 20)\<bar> \<le> 1 / 2"
    using binary32_near[of "- 12 / 20"] by auto
  then have q0: "q \<le> 0" by linarith
  have "10 powr q \<le> 10 powr 0" using q0 by (intro powr_mono) simp_all
  then have "\<bar>10 powr q\<bar> \<le> 1" by simp
  then obtain a where a: "binary32 (10 powr q) = Fin a" "\<bar>a\<bar> \<le> 1 + 1 / 2"
    using binary32_bounded[of "10 powr q" 1] by auto
  have A: "fpow binary32 (Fin 10) (fdiv binary32 (fneg cDitherA) (Fin 20)) = Fin a"
    using q(1) a(1) by (simp add: cDitherA_def)
  have "\<bar>a + - 1\<bar> \<le> 5 / 2" using a(2) by linarith
  then obtain s where s: "binary32 (a + - 1) = Fin s" "\<bar>s\<bar> \<le> 5 / 2 + 1 / 2"
    using binary32_bounded[of "a + - 1" "5 / 2"] by auto
  have s': "fsub binary32 (Fin a) (Fin 1) = Fin s" using s(1) by (simp add: fsub_def)
  have "\<bar>s / (3690987 / 2 ^ 25)\<bar> = \<bar>s\<bar> * (2 ^ 25 / 3690987)" by (simp add: abs_divide)
  also have "\<dots> \<le> 3 * (2 ^ 25 / 3690987)" using s(2) by (intro mult_right_mono) simp_all
  also have "\<dots> \<le> 28" by simp
  finally obtain mv where mv: "binary32 (s / (3690987 / 2 ^ 25)) = Fin mv" "\<bar>mv\<bar> \<le> 28 + 1 / 2"
    using binary32_bounded[of "s / (3690987 / 2 ^ 25)" 28] by auto
  have m: "fdiv binary32 (fsub binary32 (Fin a) (Fin 1))
             (fsub binary32 (cDitherF2 binary32) (cDitherF1 binary32)) = Fin mv"
    unfolding b32_dither_band s' using mv(1) by simp
  have "\<bar>real n / 256\<bar> \<le> 1 / 2" using assms by simp
  then obtain fv where fv: "binary32 (real n / 256) = Fin fv" "\<bar>fv\<bar> \<le> 1 / 2 + 1 / 2"
    using binary32_bounded[of "real n / 256" "1 / 2"] by auto
  have bn: "binary32 (real n) = Fin (real n)" using assms by (intro b32_nat) simp
  have f: "fdiv binary32 (binary32 (real n)) (binary32 256) = Fin fv"
    unfolding bn b32_256 using fv(1) by simp
  have "\<bar>fv + - (10401874 / 2 ^ 25)\<bar> \<le> 2" using fv(2) by simp
  then obtain t where t: "binary32 (fv + - (10401874 / 2 ^ 25)) = Fin t" "\<bar>t\<bar> \<le> 2 + 1 / 2"
    using binary32_bounded[of "fv + - (10401874 / 2 ^ 25)" 2] by auto
  have t': "fsub binary32 (Fin fv) (Fin (10401874 / 2 ^ 25)) = Fin t"
    unfolding fsub_def using t(1) by simp
  have "\<bar>mv * t\<bar> = \<bar>mv\<bar> * \<bar>t\<bar>" by (simp add: abs_mult)
  also have "\<dots> \<le> (28 + 1 / 2) * (2 + 1 / 2)" using mv(2) t(2) by (intro mult_mono) simp_all
  finally have "\<bar>mv * t\<bar> \<le> 72" by simp
  then obtain p where p: "binary32 (mv * t) = Fin p" "\<bar>p\<bar> \<le> 72 + 1 / 2"
    using binary32_bounded[of "mv * t" 72] by auto
  have "\<bar>p + 1\<bar> \<le> 74" using p(2) by linarith
  then obtain v where v: "binary32 (p + 1) = Fin v"
    using binary32_bounded[of "p + 1" 74] by auto
  have ramp: "fadd binary32
      (fmul binary32 (Fin mv) (fsub binary32 (Fin fv) (Fin (10401874 / 2 ^ 25)))) (Fin 1) = Fin v"
    unfolding t' using p(1) v by simp
  show ?thesis
    unfolding A m
    by (rule mask_value_fin[OF f b32_dither]) (simp_all only: ramp is_fin.simps)
qed

text \<open>
  Claim C7. Over the length \<open>N = 256\<close>, whatever the buffer held before and for every rounding
  under which \<open>F2\<close> is not below \<open>F1\<close>, \<^verbatim>\<open>CalcEqualizerMask\<close> leaves a buffer of the same
  length in which every index \<open>n < N / 2\<close>, with \<open>f = n / N\<close> computed in the arithmetic of the
  code, holds \<open>1\<close> when \<open>f < F1\<close>, the ramp \<open>m \<sqdot> (f - F1) + 1\<close> with slope
  \<open>m = (A - 1) / (F2 - F1)\<close> when \<open>F1 \<le> f < F2\<close>, and \<open>A\<close> when \<open>f \<ge> F2\<close>; the value stored at
  \<open>N - 1 - n\<close> is the value stored at \<open>n\<close>, for every index of the buffer. In exact arithmetic
  \<open>A\<close> is \<open>10\<close> to the power \<open>- 12 / 20\<close>, every entry is a number, and the comparison \<^verbatim>\<open>==\<close> of
  the entries at \<open>n\<close> and \<open>N - 1 - n\<close> holds. In binary32 too every entry is a number and the
  comparison \<^verbatim>\<open>==\<close> holds.
\<close>

theorem CalcEqualizerMask_values:
  assumes "length buffer = 256" and "\<not> flt (cDitherF2 rd) (cDitherF1 rd)"
  shows "let A = fpow rd (Fin 10) (fdiv rd (fneg cDitherA) (Fin 20));
             m = fdiv rd (fsub rd A (Fin 1)) (fsub rd (cDitherF2 rd) (cDitherF1 rd));
             eqBuffer = CalcEqualizerMask rd buffer 256;
             exact = CalcEqualizerMask Fin buffer 256;
             single = CalcEqualizerMask binary32 buffer 256
         in length eqBuffer = 256
            \<and> (\<forall>n<128.
                 let f = fdiv rd (rd (real n)) (rd 256)
                 in (flt f (cDitherF1 rd) \<longrightarrow> eqBuffer ! n = Fin 1)
                    \<and> (fge f (cDitherF1 rd) \<and> flt f (cDitherF2 rd) \<longrightarrow>
                         eqBuffer ! n = fadd rd (fmul rd m (fsub rd f (cDitherF1 rd))) (Fin 1))
                    \<and> (fge f (cDitherF2 rd) \<longrightarrow> eqBuffer ! n = A)
                    \<and> eqBuffer ! (256 - 1 - n) = eqBuffer ! n)
            \<and> (\<forall>k<256. eqBuffer ! k = eqBuffer ! (256 - 1 - k))
            \<and> (\<forall>k<256. feq (exact ! k) (exact ! (256 - 1 - k)))
            \<and> fpow Fin (Fin 10) (fdiv Fin (fneg cDitherA) (Fin 20)) = Fin (10 powr (- 12 / 20))
            \<and> (\<forall>k<256. is_fin (single ! k) \<and> feq (single ! k) (single ! (256 - 1 - k)))"
proof -
  define A where "A = fpow rd (Fin 10) (fdiv rd (fneg cDitherA) (Fin 20))"
  define m where "m = fdiv rd (fsub rd A (Fin 1)) (fsub rd (cDitherF2 rd) (cDitherF1 rd))"
  define e where "e = CalcEqualizerMask rd buffer 256"
  define x where "x = CalcEqualizerMask Fin buffer 256"
  define s where "s = CalcEqualizerMask binary32 buffer 256"
  have e: "e = fold (CalcEqualizerMask_pass rd 256 (rd 256) A m) [0..<128] buffer"
    by (simp add: e_def CalcEqualizerMask_def Let_def A_def m_def)
  have le: "length e = 256" using assms(1) by (simp add: e mask_fold_length)
  have lo: "\<And>n. n < 128 \<Longrightarrow> e ! n = mask_value rd (rd 256) A m n (buffer ! n)"
    unfolding e using mask_fold_256[OF assms(1)] by simp
  have mir: "\<And>k. k < 256 \<Longrightarrow> e ! k = e ! (256 - 1 - k)"
    unfolding e using mask_fold_mirror[OF assms(1)] by simp
  have p1: "\<forall>n<128.
      let f = fdiv rd (rd (real n)) (rd 256)
      in (flt f (cDitherF1 rd) \<longrightarrow> e ! n = Fin 1)
         \<and> (fge f (cDitherF1 rd) \<and> flt f (cDitherF2 rd) \<longrightarrow>
              e ! n = fadd rd (fmul rd m (fsub rd f (cDitherF1 rd))) (Fin 1))
         \<and> (fge f (cDitherF2 rd) \<longrightarrow> e ! n = A)
         \<and> e ! (256 - 1 - n) = e ! n"
  proof (intro allI impI)
    fix n :: nat
    assume n: "n < 128"
    then have n2: "n < 256" by simp
    show "let f = fdiv rd (rd (real n)) (rd 256)
      in (flt f (cDitherF1 rd) \<longrightarrow> e ! n = Fin 1)
         \<and> (fge f (cDitherF1 rd) \<and> flt f (cDitherF2 rd) \<longrightarrow>
              e ! n = fadd rd (fmul rd m (fsub rd f (cDitherF1 rd))) (Fin 1))
         \<and> (fge f (cDitherF2 rd) \<longrightarrow> e ! n = A)
         \<and> e ! (256 - 1 - n) = e ! n"
      unfolding Let_def lo[OF n]
      using mask_cases[OF assms(2), of "fdiv rd (rd (real n)) (rd 256)" "rd 256" A m n
          "buffer ! n"] mir[OF n2] lo[OF n]
      by simp
  qed
  have p2: "\<forall>k<256. e ! k = e ! (256 - 1 - k)" by (intro allI impI) (rule mir)
  have p3: "\<forall>k<256. feq (x ! k) (x ! (256 - 1 - k))"
  proof (intro allI impI)
    fix k :: nat
    assume k: "k < 256"
    have "x ! (256 - 1 - k) = x ! k"
      unfolding x_def exact_mask by (rule mask_fold_mirror[OF assms(1) k])
    then show "feq (x ! k) (x ! (256 - 1 - k))"
      using exact_mask_fin[OF assms(1) k] is_fin_feq[of "x ! k" "x ! (256 - 1 - k)"]
      by (simp add: x_def)
  qed
  have p4: "fpow Fin (Fin 10) (fdiv Fin (fneg cDitherA) (Fin 20)) = Fin (10 powr (- 12 / 20))"
    by (simp add: cDitherA_def)
  have p5: "\<forall>k<256. is_fin (s ! k) \<and> feq (s ! k) (s ! (256 - 1 - k))"
  proof (intro allI impI)
    fix k :: nat
    assume k: "k < 256"
    let ?A = "fpow binary32 (Fin 10) (fdiv binary32 (fneg cDitherA) (Fin 20))"
    let ?m = "fdiv binary32 (fsub binary32 ?A (Fin 1))
                (fsub binary32 (cDitherF2 binary32) (cDitherF1 binary32))"
    have se: "s = fold (CalcEqualizerMask_pass binary32 256 (binary32 256) ?A ?m) [0..<128] buffer"
      by (simp add: s_def CalcEqualizerMask_def Let_def)
    have fin: "is_fin (s ! k)"
    proof (cases "k < 128")
      case True
      then show ?thesis
        unfolding se mask_fold_256[OF assms(1) k] using mask_value_binary32[of k] by simp
    next
      case False
      then have "256 - 1 - k < 128" using k by arith
      then show ?thesis
        unfolding se mask_fold_256[OF assms(1) k]
        using False mask_value_binary32[of "256 - 1 - k"] by simp
    qed
    have "s ! (256 - 1 - k) = s ! k"
      unfolding se by (rule mask_fold_mirror[OF assms(1) k])
    then show "is_fin (s ! k) \<and> feq (s ! k) (s ! (256 - 1 - k))"
      using fin is_fin_feq[of "s ! k" "s ! (256 - 1 - k)"] by simp
  qed
  show ?thesis
    unfolding Let_def A_def[symmetric]
    unfolding m_def[symmetric] e_def[symmetric] x_def[symmetric] s_def[symmetric]
    using le p1 p2 p3 p4 p5 unfolding Let_def by blast
qed

lemma b32_50: "binary32 50 = Fin 50"
  unfolding binary32_def
  by (subst round_binary_value[where e = "5" and k = 13107200])
     (simp_all add: pow2_def round_even_def)

lemma b32_120: "binary32 120 = Fin 120"
  unfolding binary32_def
  by (subst round_binary_value[where e = "6" and k = 15728640])
     (simp_all add: pow2_def round_even_def)

lemma b32_f50: "binary32 (50 / 256) = Fin (25 / 128)"
  unfolding binary32_def
  by (subst round_binary_value[where e = "-3" and k = 13107200])
     (simp_all add: pow2_def round_even_def)

lemma b32_f120: "binary32 (120 / 256) = Fin (15 / 32)"
  unfolding binary32_def
  by (subst round_binary_value[where e = "-2" and k = 15728640])
     (simp_all add: pow2_def round_even_def)

lemma b32_100: "binary32 100 = Fin 100"
  unfolding binary32_def
  by (subst round_binary_value[where e = "6" and k = 13107200])
     (simp_all add: pow2_def round_even_def)

lemma b32_f100: "binary32 (100 / 256) = Fin (25 / 64)"
  unfolding binary32_def
  by (subst round_binary_value[where e = "-2" and k = 13107200])
     (simp_all add: pow2_def round_even_def)

lemma bin_100: "fdiv binary32 (binary32 (real 100)) (binary32 256) = Fin (25 / 64)"
  using b32_f100 by (simp add: b32_100 b32_256)

lemma bin_50: "fdiv binary32 (binary32 (real 50)) (binary32 256) = Fin (25 / 128)"
  using b32_f50 by (simp add: b32_50 b32_256)

lemma bin_120: "fdiv binary32 (binary32 (real 120)) (binary32 256) = Fin (15 / 32)"
  using b32_f120 by (simp add: b32_120 b32_256)

lemma dither_band: "\<not> flt (cDitherF2 binary32) (cDitherF1 binary32)"
  using b32_031 b32_042 by (simp add: cDitherF1_def cDitherF2_def)

theorem CalcEqualizerMask_values_witness:
  "length (replicate 256 (Fin 0)) = (256 :: nat)
   \<and> \<not> flt (cDitherF2 binary32) (cDitherF1 binary32)
   \<and> length (CalcEqualizerMask binary32 (replicate 256 (Fin 0)) 256) = 256
   \<and> CalcEqualizerMask binary32 (replicate 256 (Fin 0)) 256 ! 50 = Fin 1
   \<and> CalcEqualizerMask binary32 (replicate 256 (Fin 0)) 256 ! 205 = Fin 1
   \<and> CalcEqualizerMask binary32 (replicate 256 (Fin 0)) 256 ! 120
       = fpow binary32 (Fin 10) (fdiv binary32 (fneg cDitherA) (Fin 20))
   \<and> CalcEqualizerMask binary32 (replicate 256 (Fin 0)) 256 ! 135
       = fpow binary32 (Fin 10) (fdiv binary32 (fneg cDitherA) (Fin 20))
   \<and> CalcEqualizerMask binary32 (replicate 256 (Fin 0)) 256 ! 100
       = fadd binary32
           (fmul binary32
              (fdiv binary32
                 (fsub binary32 (fpow binary32 (Fin 10) (fdiv binary32 (fneg cDitherA) (Fin 20)))
                    (Fin 1))
                 (fsub binary32 (cDitherF2 binary32) (cDitherF1 binary32)))
              (fsub binary32 (Fin (25 / 64)) (cDitherF1 binary32)))
           (Fin 1)"
proof -
  let ?e = "CalcEqualizerMask binary32 (replicate 256 (Fin 0)) 256"
  let ?A = "fpow binary32 (Fin 10) (fdiv binary32 (fneg cDitherA) (Fin 20))"
  note t = CalcEqualizerMask_values[of "replicate 256 (Fin 0)" binary32, unfolded Let_def,
      OF _ dither_band]
  have len: "length (replicate 256 (Fin 0 :: fl)) = (256 :: nat)" by simp
  have l: "length ?e = 256" using t[OF len] by blast
  have r: "\<forall>n<128.
      fge (fdiv binary32 (binary32 (real n)) (binary32 256)) (cDitherF1 binary32)
      \<and> flt (fdiv binary32 (binary32 (real n)) (binary32 256)) (cDitherF2 binary32)
      \<longrightarrow> ?e ! n = fadd binary32
           (fmul binary32
              (fdiv binary32 (fsub binary32 ?A (Fin 1))
                 (fsub binary32 (cDitherF2 binary32) (cDitherF1 binary32)))
              (fsub binary32 (fdiv binary32 (binary32 (real n)) (binary32 256))
                 (cDitherF1 binary32)))
           (Fin 1)"
    using t[OF len] by blast
  have f3: "fge (Fin (25 / 64)) (cDitherF1 binary32) \<and> flt (Fin (25 / 64)) (cDitherF2 binary32)"
    using b32_031 b32_042 by (simp add: cDitherF1_def cDitherF2_def fge_def)
  have c: "?e ! 100 = fadd binary32
           (fmul binary32
              (fdiv binary32 (fsub binary32 ?A (Fin 1))
                 (fsub binary32 (cDitherF2 binary32) (cDitherF1 binary32)))
              (fsub binary32 (Fin (25 / 64)) (cDitherF1 binary32)))
           (Fin 1)"
    using r[rule_format, of 100] f3 unfolding bin_100 by simp
  have q: "\<forall>n<128. (flt (fdiv binary32 (binary32 (real n)) (binary32 256)) (cDitherF1 binary32)
              \<longrightarrow> ?e ! n = Fin 1)
         \<and> (fge (fdiv binary32 (binary32 (real n)) (binary32 256)) (cDitherF2 binary32)
              \<longrightarrow> ?e ! n = ?A)
         \<and> ?e ! (256 - 1 - n) = ?e ! n"
    using t[OF len] by blast
  have f1: "flt (Fin (25 / 128)) (cDitherF1 binary32)"
    using b32_031 by (simp add: cDitherF1_def)
  have f2: "fge (Fin (15 / 32)) (cDitherF2 binary32)"
    using b32_042 by (simp add: cDitherF2_def fge_def)
  have a: "?e ! 50 = Fin 1 \<and> ?e ! (256 - 1 - 50) = ?e ! 50"
    using q[rule_format, of 50] f1 unfolding bin_50 by simp
  have b: "?e ! 120 = ?A \<and> ?e ! (256 - 1 - 120) = ?e ! 120"
    using q[rule_format, of 120] f2 unfolding bin_120 by simp
  have a': "?e ! 205 = Fin 1" using a by simp
  have b': "?e ! 135 = ?A" using b by simp
  show ?thesis using len dither_band l a a' b b' c by blast
qed

section \<open>Integration of windows\<close>

lemma added_windows_length:
  "length (spec_added_windows rd fmt stride ks raw r aux) \<le> length ks"
proof (induction ks arbitrary: raw r aux)
  case Nil
  then show ?case by simp
next
  case (Cons k ks)
  show ?case
    using Cons.IH
    by (auto simp: Let_def le_SucI split: sum.splits prod.splits)
qed

lemma ReadSignal_loop_sum:
  assumes "0 < n" and "n < cNumInts"
  shows "\<exists>st'. ReadSignal_loop rd fmt stride n st = Inr st'
     \<and> mSigBuffer st' =
         fold (\<lambda>w s. Add rd s w cSiglen)
           (spec_added_windows rd fmt stride [n..<cNumInts] (mRawBuffer st) (mReader st) (mAuxBuffer st))
           (mSigBuffer st)"
  using assms
proof (induction rd fmt stride n st rule: ReadSignal_loop.induct)
  case (1 rd fmt stride n st)
  obtain a raw1 r1 where
    rd1: "ReadSamples (mRawBuffer st) cSiglen stride (format fmt) (endian fmt) (mReader st)
          = Inr (a, raw1, r1)"
    using ReadSamples_Inr by blast
  obtain d raw2 r2 where
    rd2: "ReadSamples raw1 (n + 1) stride (format fmt) (endian fmt) r1 = Inr (d, raw2, r2)"
    using ReadSamples_Inr by blast
  have u: "[n..<cNumInts] = n # [n + 1..<cNumInts]"
    using 1(3) by (simp add: upt_rec)
  show ?case
  proof (cases "a = cSiglen")
    case False
    then show ?thesis
      using 1(2) rd1
      by (subst ReadSignal_loop.simps) (simp add: ReadSignal_body_def u)
  next
    case True
    let ?aux = "ConvertSamples rd (mEnd r1) raw1 (mAuxBuffer st) fmt"
    let ?st = "st\<lparr>mRawBuffer := raw2, mReader := r2, mAuxBuffer := ?aux,
                 mSigBuffer := Add rd (mSigBuffer st) ?aux cSiglen\<rparr>"
    have body: "ReadSignal_body rd fmt stride n st = Inr (a, ?st)"
      using 1(2) rd1 rd2 True by (simp add: ReadSignal_body_def Let_def)
    show ?thesis
    proof (cases "n + 1 < cNumInts")
      case False
      then have e: "[n + 1..<cNumInts] = []" by simp
      show ?thesis
        using body False rd1 rd2 True
        by (subst ReadSignal_loop.simps) (simp add: u e Let_def)
    next
      case less: True
      have ih: "\<exists>st'. ReadSignal_loop rd fmt stride (n + 1) ?st = Inr st'
         \<and> mSigBuffer st' =
           fold (\<lambda>w s. Add rd s w cSiglen)
             (spec_added_windows rd fmt stride [n + 1..<cNumInts] (mRawBuffer ?st) (mReader ?st)
                (mAuxBuffer ?st))
             (mSigBuffer ?st)"
        using 1(1)[OF body refl _ _ less] less True by simp
      show ?thesis
        using ih body less rd1 rd2 True
        by (subst ReadSignal_loop.simps) (simp add: u Let_def)
    qed
  qed
qed


lemma ToFloat_length: "length (ToFloat w cast inp out len) = length out"
  unfolding ToFloat_def
  by (rule inplace_length[where h = "\<lambda>n v. cast (take w (drop (n * w) inp))"])

lemma ToFloat_nth:
  "j < length out \<Longrightarrow>
   ToFloat w cast inp out len ! j =
     (if j < len then cast (take w (drop (j * w) inp)) else out ! j)"
  unfolding ToFloat_def
  by (rule inplace_nth[where h = "\<lambda>n v. cast (take w (drop (n * w) inp))"])

lemma ConvertSamples_length: "length (ConvertSamples rd h inp out fmt) = length out"
  by (cases "format fmt") (simp_all add: ConvertSamples_def ToFloat_length)

lemma fold_Add_length: "length (fold (\<lambda>w s. Add rd s w len) ws s) = length s"
  by (induction ws arbitrary: s) (simp_all add: Add_length)

lemma fold_Add_nth:
  "j < length s \<Longrightarrow> j < len \<Longrightarrow>
   fold (\<lambda>w s. Add rd s w len) ws s ! j = fold (\<lambda>w v. fadd rd v (w ! j)) ws (s ! j)"
  by (induction ws arbitrary: s) (simp_all add: Add_length Add_nth)

text \<open>
  Claim C6. \<^verbatim>\<open>ReadSignal\<close> returns, for every candidate, stride, state and rounding. It
  reads its first window of \<open>cSiglen\<close> samples at \<open>mSignalStart\<close> and converts the raw buffer
  into \<open>mSigBuffer\<close>, whatever the read returned. If that read was short it is done;
  otherwise it goes through the indices 1 to \<open>cNumInts - 1 = 31\<close>, reads a window at each,
  adds a full one element by element into \<open>mSigBuffer\<close> and follows it with a read of
  \<open>k + 1\<close> samples at index \<open>k\<close>, and stops at the first short read. \<open>mSigBuffer\<close> is the sum
  of the first window and at most 31 others.
\<close>

theorem ReadSignal_integrates:
  "\<exists>st' actRead raw r ws.
     ReadSignal rd fmt stride st = Inr st'
     \<and> ReadSamples (mRawBuffer st) cSiglen stride (format fmt) (endian fmt)
          (mReader st\<lparr>fpos := mSignalStart st\<rparr>) = Inr (actRead, raw, r)
     \<and> ws = (if actRead = cSiglen
             then spec_added_windows rd fmt stride [1..<cNumInts] raw r (mAuxBuffer st) else [])
     \<and> mSigBuffer st' =
         fold (\<lambda>w s. Add rd s w cSiglen) ws (ConvertSamples rd (mEnd r) raw (mSigBuffer st) fmt)
     \<and> (cSiglen \<le> length (mSigBuffer st) \<longrightarrow>
          (\<forall>j<cSiglen. mSigBuffer st' ! j =
             fold (\<lambda>w v. fadd rd v (w ! j)) ws
               (ConvertSamples rd (mEnd r) raw (mSigBuffer st) fmt ! j)))
     \<and> 1 \<le> 1 + length ws \<and> 1 + length ws \<le> cNumInts \<and> cNumInts = 32"
proof -
  let ?st0 = "st\<lparr>mReader := Reset (mSignalStart st) (mReader st)\<rparr>"
  obtain a raw r where
    rd1: "ReadSamples (mRawBuffer st) cSiglen stride (format fmt) (endian fmt)
            (mReader st\<lparr>fpos := mSignalStart st\<rparr>) = Inr (a, raw, r)"
    using ReadSamples_Inr by blast
  let ?sig = "ConvertSamples rd (mEnd r) raw (mSigBuffer st) fmt"
  let ?st1 = "?st0\<lparr>mRawBuffer := raw, mReader := r, mSigBuffer := ?sig\<rparr>"
  let ?ws = "if a = cSiglen
             then spec_added_windows rd fmt stride [1..<cNumInts] raw r (mAuxBuffer st) else []"
  have body: "ReadSignal_body rd fmt stride 0 ?st0 = Inr (a, ?st1)"
    using rd1 by (simp add: ReadSignal_body_def Reset_def)
  have len: "1 + length ?ws \<le> cNumInts"
    using added_windows_length[of rd fmt stride "[1..<cNumInts]" raw r "mAuxBuffer st"]
    by (simp add: cNumInts_def)
  have res: "\<exists>st'. ReadSignal rd fmt stride st = Inr st'
      \<and> mSigBuffer st' = fold (\<lambda>w s. Add rd s w cSiglen) ?ws ?sig"
  proof (cases "a = cSiglen")
    case False
    then show ?thesis
      unfolding ReadSignal_def using body
      by (subst ReadSignal_loop.simps) simp
  next
    case True
    have "\<exists>st'. ReadSignal_loop rd fmt stride 1 ?st1 = Inr st'
     \<and> mSigBuffer st' =
         fold (\<lambda>w s. Add rd s w cSiglen)
           (spec_added_windows rd fmt stride [1..<cNumInts] (mRawBuffer ?st1) (mReader ?st1)
              (mAuxBuffer ?st1))
           (mSigBuffer ?st1)"
      by (rule ReadSignal_loop_sum) (simp_all add: cNumInts_def)
    then show ?thesis
      unfolding ReadSignal_def using body True
      by (subst ReadSignal_loop.simps) (simp add: cNumInts_def)
  qed
  from res obtain st' where
    r1: "ReadSignal rd fmt stride st = Inr st'"
    and r2: "mSigBuffer st' = fold (\<lambda>w s. Add rd s w cSiglen) ?ws ?sig"
    by blast
  have el: "cSiglen \<le> length (mSigBuffer st) \<longrightarrow>
          (\<forall>j<cSiglen. mSigBuffer st' ! j = fold (\<lambda>w v. fadd rd v (w ! j)) ?ws (?sig ! j))"
    unfolding r2 by (intro impI allI fold_Add_nth) (simp_all add: ConvertSamples_length)
  have n: "cNumInts = 32" by (simp add: cNumInts_def)
  show ?thesis
    apply (rule exI[of _ st'], rule exI[of _ a], rule exI[of _ raw], rule exI[of _ r])
    apply (rule exI[of _ "?ws"])
    apply (intro conjI)
           apply (rule r1)
          apply (rule rd1)
         apply (rule refl)
        apply (rule r2)
       apply (rule el)
      apply simp
     apply (rule len)
    apply (rule n)
    done
qed

text \<open>Reads of bytes, and the conversion of bytes.\<close>

lemma ReadSamples_Uint8:
  "ReadSamples buffer len (Suc 0) Uint8 en r =
     Inr (let got = take len (drop (fpos r) (fbytes r))
          in (length got, store buffer 0 got, r\<lparr>fpos := fpos r + length got\<rparr>))"
  by (simp add: ReadSamples_def Read_linear Let_def)

lemma host_value_byte: "host_value h [b] = unat b"
  by (simp add: host_value_def)

lemma ConvertSamples_Uint8_nth:
  assumes "format fmt = Uint8" and "j < cSiglen" and "cSiglen \<le> length out" and "j < length inp"
  shows "ConvertSamples rd h inp out fmt ! j = rd (real (unat (inp ! j)))"
proof -
  have "take 1 (drop j inp) = [inp ! j]"
    using assms(4) by (simp add: Cons_nth_drop_Suc[symmetric])
  then show ?thesis
    using assms by (simp add: ConvertSamples_def ToFloat_nth host_value_byte)
qed

lemma b32_3: "binary32 3 = Fin 3"
  using binary32_exact[of 3 0] by (simp add: pow2_def)

text \<open>
  A file of 4024 bytes with the signal start at 1024: the window of ones and the window of
  twos are full and are added; the read of two samples that follows takes two bytes, and the
  third window, of 950 bytes, is short and ends the integration.
\<close>

theorem ReadSignal_integrates_witness:
  "(let st = FormatClassifier_new (replicate 2048 1 @ replicate 1024 2 @ replicate 952 3)
               Little [] [];
        fmt = \<lparr>format = Uint8, endian = Little\<rparr>
    in cSiglen \<le> length (mSigBuffer st)
       \<and> mSignalStart st = 1024
       \<and> (\<exists>st'. ReadSignal binary32 fmt 1 st = Inr st'
             \<and> mSigBuffer st' ! 0 = Fin 3 \<and> mSigBuffer st' ! 1023 = Fin 3))"
proof -
  define f :: "byte list" where "f = replicate 2048 1 @ replicate 1024 2 @ replicate 952 3"
  define st where "st = FormatClassifier_new f Little [] []"
  define fmt where "fmt = \<lparr>format = Uint8, endian = Little\<rparr>"
  have b: "mRawBuffer st = replicate 8192 0" "mSigBuffer st = replicate 1024 (Fin 0)"
    "mAuxBuffer st = replicate 1024 (Fin 0)"
    "mReader st = \<lparr>fbytes = f, fpos = 0, mEnd = Little\<rparr>" "mSignalStart st = 1024"
    by (simp_all add: st_def FormatClassifier_new_def cSiglen_def cRawSiglen_def cHeaderSkip_def)
  have fm: "format fmt = Uint8" "endian fmt = Little" by (simp_all add: fmt_def)
  have d0: "take 1024 (drop 1024 f) = replicate 1024 1" by (simp add: f_def)
  have d1: "take 1024 (drop 2048 f) = replicate 1024 2" by (simp add: f_def)
  have d2: "take 2 (drop 3072 f) = replicate 2 3" by (simp add: f_def)
  have d3: "take 1024 (drop 3074 f) = replicate 950 3" by (simp add: f_def)
  have lf: "length f = 4024" by (simp add: f_def)
  have l: "cSiglen \<le> length (mSigBuffer st)" by (simp add: b cSiglen_def)
  from ReadSignal_integrates[of binary32 fmt 1 st] obtain st' a raw r ws where
    r1: "ReadSignal binary32 fmt 1 st = Inr st'"
    and rd: "ReadSamples (mRawBuffer st) cSiglen 1 (format fmt) (endian fmt)
          (mReader st\<lparr>fpos := mSignalStart st\<rparr>) = Inr (a, raw, r)"
    and ws: "ws = (if a = cSiglen
             then spec_added_windows binary32 fmt 1 [1..<cNumInts] raw r (mAuxBuffer st) else [])"
    and el: "cSiglen \<le> length (mSigBuffer st) \<longrightarrow>
          (\<forall>j<cSiglen. mSigBuffer st' ! j =
             fold (\<lambda>w v. fadd binary32 v (w ! j)) ws
               (ConvertSamples binary32 (mEnd r) raw (mSigBuffer st) fmt ! j))"
    by blast
  have "ReadSamples (mRawBuffer st) cSiglen 1 (format fmt) (endian fmt)
          (mReader st\<lparr>fpos := mSignalStart st\<rparr>)
      = Inr (1024, replicate 1024 1 @ replicate 7168 0, \<lparr>fbytes = f, fpos = 2048, mEnd = Little\<rparr>)"
    by (simp add: fm ReadSamples_Uint8 b cSiglen_def d0 store_def)
  then have v: "a = 1024" "raw = replicate 1024 1 @ replicate 7168 0"
    "r = \<lparr>fbytes = f, fpos = 2048, mEnd = Little\<rparr>"
    using rd by simp_all
  have u: "[1..<cNumInts] = 1 # 2 # [3..<cNumInts]" by (simp add: cNumInts_def upt_rec)
  have wsv: "ws = [ConvertSamples binary32 Little (replicate 1024 2 @ replicate 7168 0)
                    (replicate 1024 (Fin 0)) fmt]"
    unfolding ws v u
    by (simp add: fm ReadSamples_Uint8 b cSiglen_def d1 d2 d3 lf store_def Let_def)
  have e: "\<And>j. j < 1024 \<Longrightarrow> mSigBuffer st' ! j = Fin 3"
  proof -
    fix j :: nat
    assume j: "j < 1024"
    have s0: "ConvertSamples binary32 Little (replicate 1024 1 @ replicate 7168 0)
               (replicate 1024 (Fin 0)) fmt ! j = Fin 1"
      using j by (subst ConvertSamples_Uint8_nth) (simp_all add: fm cSiglen_def nth_append b32_1)
    have s1: "ConvertSamples binary32 Little (replicate 1024 2 @ replicate 7168 0)
               (replicate 1024 (Fin 0)) fmt ! j = Fin 2"
      using j by (subst ConvertSamples_Uint8_nth) (simp_all add: fm cSiglen_def nth_append b32_2)
    have "mSigBuffer st' ! j =
             fold (\<lambda>w v. fadd binary32 v (w ! j)) ws
               (ConvertSamples binary32 (mEnd r) raw (mSigBuffer st) fmt ! j)"
      using el l j by (simp add: cSiglen_def)
    then show "mSigBuffer st' ! j = Fin 3"
      unfolding wsv v b by (simp add: s0 s1 b32_3)
  qed
  have "\<exists>st'. ReadSignal binary32 fmt 1 st = Inr st'
             \<and> mSigBuffer st' ! 0 = Fin 3 \<and> mSigBuffer st' ! 1023 = Fin 3"
    using r1 e[of 0] e[of 1023] by simp
  then show ?thesis
    unfolding Let_def f_def[symmetric] st_def[symmetric] fmt_def[symmetric]
    using l b(5) by simp
qed

section \<open>The unread part of the raw buffer\<close>

lemma store_length: "off + length bs \<le> length buf \<Longrightarrow> length (store buf off bs) = length buf"
  by (simp add: store_def)



















section \<open>The search for the signal start\<close>

declare FindSignalStart_loop.simps [simp del]

text \<open>A run of reads of one window each, from the position \<open>p\<close>.\<close>

lemma FindSignalStart_reads:
  assumes "for_each (\<lambda>n. FindSignalStart_read) ns (a, st) = Inr (a', st')" and "ns \<noteq> []"
    and "cSiglen \<le> length (mRawBuffer st)"
  shows "a' = length (take cSiglen (drop (fpos (mReader st) + (length ns - 1) * cSiglen)
                                      (fbytes (mReader st))))
     \<and> take a' (mRawBuffer st')
         = take cSiglen (drop (fpos (mReader st) + (length ns - 1) * cSiglen)
                           (fbytes (mReader st)))
     \<and> length (mRawBuffer st') = length (mRawBuffer st)
     \<and> fbytes (mReader st') = fbytes (mReader st)
     \<and> mEnd (mReader st') = mEnd (mReader st)
     \<and> mSigBuffer st' = mSigBuffer st
     \<and> fpos (mReader st') \<le> fpos (mReader st) + length ns * cSiglen
     \<and> (fpos (mReader st') = fpos (mReader st) + length ns * cSiglen
        \<or> length (fbytes (mReader st)) \<le> fpos (mReader st'))"
  using assms
proof (induction ns arbitrary: a st)
  case Nil
  then show ?case by simp
next
  case (Cons n ns)
  let ?r = "mReader st"
  define got where "got = take cSiglen (drop (fpos ?r) (fbytes ?r))"
  define st1 where "st1 = st\<lparr>mRawBuffer := store (mRawBuffer st) 0 got,
                              mReader := ?r\<lparr>fpos := fpos ?r + length got\<rparr>\<rparr>"
  have one: "FindSignalStart_read (a, st) = Inr (length got, st1)"
    by (simp add: FindSignalStart_read_eq Let_def got_def st1_def)
  have lg: "length got \<le> cSiglen" by (simp add: got_def)
  have room: "0 + length got \<le> length (mRawBuffer st)" using lg Cons.prems(3) by simp
  have l1: "length (mRawBuffer st1) = length (mRawBuffer st)"
    by (simp add: st1_def store_length[OF room])
  have t1: "take (length got) (mRawBuffer st1) = got"
    by (simp add: st1_def store_def)
  have p1: "fpos (mReader st1) = fpos ?r + length got" by (simp add: st1_def)
  have f1: "fbytes (mReader st1) = fbytes ?r" "mEnd (mReader st1) = mEnd ?r"
    "mSigBuffer st1 = mSigBuffer st"
    by (simp_all add: st1_def)
  have eof: "length got = cSiglen \<or> length (fbytes ?r) \<le> fpos ?r + length got"
    by (auto simp: got_def)
  show ?case
  proof (cases "ns = []")
    case True
    then have v: "a' = length got" "st' = st1" using Cons.prems(1) one by simp_all
    have g: "take cSiglen (drop (fpos ?r + (length (n # ns) - 1) * cSiglen) (fbytes ?r)) = got"
      using True by (simp add: got_def)
    have "length (n # ns) * cSiglen = cSiglen" using True by simp
    then show ?thesis
      unfolding g v using l1 t1 p1 f1 eof lg by auto
  next
    case False
    have rest: "for_each (\<lambda>n. FindSignalStart_read) ns (length got, st1) = Inr (a', st')"
      using Cons.prems(1) one by simp
    have c1: "cSiglen \<le> length (mRawBuffer st1)" using l1 Cons.prems(3) by simp
    note ih = Cons.IH[OF rest False c1]
    have ar: "cSiglen + (length ns - 1) * cSiglen = length ns * cSiglen"
      using False by (cases ns) simp_all
    have k: "(length (n # ns) - 1) * cSiglen = length ns * cSiglen" by simp
    have k2: "length (n # ns) * cSiglen = cSiglen + length ns * cSiglen" by simp
    have same: "drop (fpos (mReader st1) + (length ns - 1) * cSiglen) (fbytes (mReader st1))
        = drop (fpos ?r + (length (n # ns) - 1) * cSiglen) (fbytes ?r)"
    proof (cases "length got = cSiglen")
      case True
      then show ?thesis using ar by (simp add: p1 f1 add.assoc)
    next
      case short: False
      then have e: "length (fbytes ?r) \<le> fpos ?r + length got" using eof by simp
      then have "drop (fpos (mReader st1) + (length ns - 1) * cSiglen) (fbytes (mReader st1)) = []"
        by (simp add: p1 f1)
      moreover have "length got \<le> length ns * cSiglen" using lg ar by linarith
      then have "drop (fpos ?r + (length (n # ns) - 1) * cSiglen) (fbytes ?r) = []"
        using e by simp
      ultimately show ?thesis by simp
    qed
    have i1: "a' = length (take cSiglen
        (drop (fpos ?r + (length (n # ns) - 1) * cSiglen) (fbytes ?r)))"
      using ih unfolding same by blast
    have i2: "take a' (mRawBuffer st')
        = take cSiglen (drop (fpos ?r + (length (n # ns) - 1) * cSiglen) (fbytes ?r))"
      using ih unfolding same by blast
    have i3: "length (mRawBuffer st') = length (mRawBuffer st)" using ih l1 by simp
    have i4: "fbytes (mReader st') = fbytes ?r" "mEnd (mReader st') = mEnd ?r"
      "mSigBuffer st' = mSigBuffer st"
      using ih f1 by simp_all
    have "fpos (mReader st') \<le> fpos (mReader st1) + length ns * cSiglen" using ih by blast
    then have pos: "fpos (mReader st') \<le> fpos ?r + length (n # ns) * cSiglen"
      unfolding k2 p1 using lg by linarith
    have dis: "fpos (mReader st') = fpos ?r + length (n # ns) * cSiglen
        \<or> length (fbytes ?r) \<le> fpos (mReader st')"
    proof (cases "length got = cSiglen")
      case True
      have "fpos (mReader st') = fpos (mReader st1) + length ns * cSiglen
          \<or> length (fbytes (mReader st1)) \<le> fpos (mReader st')"
        using ih by blast
      then show ?thesis unfolding k2 p1 f1 True by (simp add: add.assoc)
    next
      case short: False
      then have e: "length (fbytes ?r) \<le> fpos (mReader st1)" using eof by (simp add: p1)
      have "fpos (mReader st1) \<le> fpos (mReader st')"
        using FindSignalStart_reads_mono[OF rest] by simp
      then show ?thesis using e by simp
    qed
    show ?thesis
      using i1 i2 i3 i4 pos dis by blast
  qed
qed

lemma FindSignalStart_reads_return:
  "\<exists>a' st'. for_each (\<lambda>n. FindSignalStart_read) ns (a, st) = Inr (a', st')"
  by (induction ns arbitrary: a st) (simp_all add: FindSignalStart_read_eq Let_def)

lemma Rms_cong:
  assumes "\<And>n. n < len \<Longrightarrow> a ! n = b ! n"
  shows "Rms rd a len = Rms rd b len"
proof -
  have "fold (\<lambda>n rms. fadd rd rms (fmul rd (a ! n) (a ! n))) [0..<len] (Fin 0)
      = fold (\<lambda>n rms. fadd rd rms (fmul rd (b ! n) (b ! n))) [0..<len] (Fin 0)"
    by (rule fold_cong) (simp_all add: assms)
  then show ?thesis by (simp add: Rms_def)
qed

lemma probed_rms:
  assumes "probed rd bytes i st"
  shows "Rms rd (mSigBuffer st) 64 = spec_probe_rms rd bytes i"
  unfolding spec_probe_rms_def
proof (rule Rms_cong)
  fix n :: nat
  assume n: "n < 64"
  have "length (spec_probe_window bytes i) = 1024"
    using assms by (simp add: probed_def cSiglen_def)
  then have "map (\<lambda>b. rd (real (unat b))) (spec_probe_window bytes i) ! n
      = rd (real (unat (spec_probe_window bytes i ! n)))"
    using n by simp
  then show "mSigBuffer st ! n = map (\<lambda>b. rd (real (unat b))) (spec_probe_window bytes i) ! n"
    using assms n by (simp add: probed_def)
qed

lemma probe_window_full:
  "length (spec_probe_window bytes i) = cSiglen
   \<longleftrightarrow> cHeaderSkip + i * cSigSearchGridSize * cSiglen + cSiglen \<le> length bytes"
  by (auto simp: spec_probe_window_def cSiglen_def)

lemma probe_window_mono:
  assumes "length (spec_probe_window bytes k) = cSiglen" and "j \<le> k"
  shows "length (spec_probe_window bytes j) = cSiglen"
proof -
  have "j * cSigSearchGridSize * cSiglen \<le> k * cSigSearchGridSize * cSiglen"
    using assms(2) by (intro mult_le_mono1)
  then show ?thesis
    using assms(1) unfolding probe_window_full by linarith
qed

lemma FindSignalStart_loop_exit:
  "fne rms rms \<or> a \<noteq> cSiglen \<Longrightarrow> FindSignalStart_loop rd a rms i st = Inr (False, i, st)"
  by (subst FindSignalStart_loop.simps) auto

lemma FindSignalStart_loop_hit:
  assumes "probed rd bytes i st" and "\<not> fne rms rms"
    and "fge (spec_probe_rms rd bytes i) (cMinRms rd)"
  shows "FindSignalStart_loop rd cSiglen rms i st = Inr (True, i, st)"
  using assms probed_rms[OF assms(1)]
  by (subst FindSignalStart_loop.simps) (simp add: Let_def)

lemma FindSignalStart_loop_step:
  assumes "probed rd bytes i st" and "\<not> fne rms rms"
    and "\<not> fge (spec_probe_rms rd bytes i) (cMinRms rd)"
  shows "(length (spec_probe_window bytes (i + 1)) = cSiglen \<longrightarrow>
            (\<exists>st1. probed rd bytes (i + 1) st1
               \<and> FindSignalStart_loop rd cSiglen rms i st
                 = FindSignalStart_loop rd cSiglen (spec_probe_rms rd bytes i) (i + 1) st1))
       \<and> (length (spec_probe_window bytes (i + 1)) \<noteq> cSiglen \<longrightarrow>
            (\<exists>st1. FindSignalStart_loop rd cSiglen rms i st = Inr (False, i, st1)))"
proof -
  let ?ns = "[0..<cSigSearchGridSize]"
  have p: "fbytes (mReader st) = bytes"
    "fpos (mReader st) = cHeaderSkip + i * cSigSearchGridSize * cSiglen + cSiglen"
    "cSiglen \<le> length (mRawBuffer st)" "cSiglen \<le> length (mSigBuffer st)"
    using assms(1) by (simp_all add: probed_def)
  obtain a' st1 where sk: "for_each (\<lambda>n. FindSignalStart_read) ?ns (cSiglen, st) = Inr (a', st1)"
    using FindSignalStart_reads_return by blast
  have ne: "?ns \<noteq> []" by (simp add: cSigSearchGridSize_def)
  have ln: "length ?ns = 32" by (simp add: cSigSearchGridSize_def)
  have off: "fpos (mReader st) + (length ?ns - 1) * cSiglen
      = cHeaderSkip + (i + 1) * cSigSearchGridSize * cSiglen"
    unfolding ln p(2) by (simp add: cSigSearchGridSize_def algebra_simps)
  have behind: "fpos (mReader st) + length ?ns * cSiglen
      = cHeaderSkip + (i + 1) * cSigSearchGridSize * cSiglen + cSiglen"
    unfolding ln p(2) by (simp add: cSigSearchGridSize_def algebra_simps)
  note r = FindSignalStart_reads[OF sk ne p(3), unfolded off behind p(1),
      folded spec_probe_window_def]
  have a': "a' = length (spec_probe_window bytes (i + 1))" using r by blast
  have tk: "take a' (mRawBuffer st1) = spec_probe_window bytes (i + 1)" using r by blast
  have lr: "length (mRawBuffer st1) = length (mRawBuffer st)" using r by blast
  have fb: "fbytes (mReader st1) = bytes" using r by blast
  have sg: "mSigBuffer st1 = mSigBuffer st" using r by blast
  have le: "fpos (mReader st1) \<le> cHeaderSkip + (i + 1) * cSigSearchGridSize * cSiglen + cSiglen"
    using r by blast
  have dj: "fpos (mReader st1) = cHeaderSkip + (i + 1) * cSigSearchGridSize * cSiglen + cSiglen
      \<or> length bytes \<le> fpos (mReader st1)"
    using r by blast
  have unf: "FindSignalStart_loop rd cSiglen rms i st =
      (if a' = cSiglen
       then FindSignalStart_loop rd a' (spec_probe_rms rd bytes i) (i + 1)
              (st1\<lparr>mSigBuffer := ConvertSamples rd (mEnd (mReader st1)) (mRawBuffer st1)
                                     (mSigBuffer st1) testFormat\<rparr>)
       else FindSignalStart_loop rd a' (spec_probe_rms rd bytes i) i st1)"
    using assms(2,3) probed_rms[OF assms(1)] sk
    by (subst FindSignalStart_loop.simps) (simp add: Let_def FindSignalStart_skip_def)
  show ?thesis
  proof (intro conjI impI)
    assume full: "length (spec_probe_window bytes (i + 1)) = cSiglen"
    let ?st = "st1\<lparr>mSigBuffer := ConvertSamples rd (mEnd (mReader st1)) (mRawBuffer st1)
                                     (mSigBuffer st1) testFormat\<rparr>"
    have "cHeaderSkip + (i + 1) * cSigSearchGridSize * cSiglen + cSiglen \<le> length bytes"
      using full unfolding probe_window_full .
    then have ps: "fpos (mReader st1)
        = cHeaderSkip + (i + 1) * cSigSearchGridSize * cSiglen + cSiglen"
      using le dj by linarith
    have vals: "\<forall>n<64. mSigBuffer ?st ! n = rd (real (unat (spec_probe_window bytes (i + 1) ! n)))"
    proof (intro allI impI)
      fix n :: nat
      assume n: "n < 64"
      then have n1: "n < cSiglen" by (simp add: cSiglen_def)
      have n2: "n < length (mRawBuffer st1)" using n1 lr p(3) by simp
      have "mRawBuffer st1 ! n = take a' (mRawBuffer st1) ! n"
        using n1 a' full by simp
      then have "mRawBuffer st1 ! n = spec_probe_window bytes (i + 1) ! n" by (simp add: tk)
      moreover have "mSigBuffer ?st ! n = rd (real (unat (mRawBuffer st1 ! n)))"
        using n1 n2 p(4) by (simp add: sg ConvertSamples_Uint8_nth testFormat_def)
      ultimately show "mSigBuffer ?st ! n = rd (real (unat (spec_probe_window bytes (i + 1) ! n)))"
        by simp
    qed
    have "probed rd bytes (i + 1) ?st"
      unfolding probed_def using full fb ps lr p(3,4) vals
      by (simp add: ConvertSamples_length sg)
    moreover have "FindSignalStart_loop rd cSiglen rms i st
        = FindSignalStart_loop rd cSiglen (spec_probe_rms rd bytes i) (i + 1) ?st"
      using unf a' full by simp
    ultimately show "\<exists>st1. probed rd bytes (i + 1) st1
               \<and> FindSignalStart_loop rd cSiglen rms i st
                 = FindSignalStart_loop rd cSiglen (spec_probe_rms rd bytes i) (i + 1) st1"
      by blast
  next
    assume nf: "length (spec_probe_window bytes (i + 1)) \<noteq> cSiglen"
    then have "FindSignalStart_loop rd cSiglen rms i st = Inr (False, i, st1)"
      using unf a' by (simp add: FindSignalStart_loop_exit)
    then show "\<exists>st1. FindSignalStart_loop rd cSiglen rms i st = Inr (False, i, st1)"
      by blast
  qed
qed

lemma fne_self: "fne x x \<longleftrightarrow> x = NaN"
  by (simp add: fne_def feq_def)

lemma fge_NaN: "\<not> fge NaN b"
  by (cases b) (simp_all add: fge_def feq_def)

lemma FindSignalStart_loop_found:
  assumes "probed rd bytes i st" and "rms \<noteq> NaN"
    and "\<forall>j. i \<le> j \<and> j < i + d \<longrightarrow>
           \<not> fge (spec_probe_rms rd bytes j) (cMinRms rd) \<and> spec_probe_rms rd bytes j \<noteq> NaN"
    and "length (spec_probe_window bytes (i + d)) = cSiglen"
    and "fge (spec_probe_rms rd bytes (i + d)) (cMinRms rd)"
  shows "\<exists>st'. FindSignalStart_loop rd cSiglen rms i st = Inr (True, i + d, st')"
  using assms
proof (induction d arbitrary: i st rms)
  case 0
  then show ?case
    using FindSignalStart_loop_hit[of rd bytes i st rms] by (simp add: fne_self)
next
  case (Suc d)
  have quiet: "\<not> fge (spec_probe_rms rd bytes i) (cMinRms rd)" "spec_probe_rms rd bytes i \<noteq> NaN"
    using Suc.prems(3) by simp_all
  have full: "length (spec_probe_window bytes (i + 1)) = cSiglen"
    using probe_window_mono[OF Suc.prems(4), of "i + 1"] by simp
  from FindSignalStart_loop_step[OF Suc.prems(1) _ quiet(1), of rms] Suc.prems(2) full
  obtain st1 where st1: "probed rd bytes (i + 1) st1"
    and eq: "FindSignalStart_loop rd cSiglen rms i st
             = FindSignalStart_loop rd cSiglen (spec_probe_rms rd bytes i) (i + 1) st1"
    by (auto simp: fne_self)
  have rest: "\<forall>j. i + 1 \<le> j \<and> j < i + 1 + d \<longrightarrow>
           \<not> fge (spec_probe_rms rd bytes j) (cMinRms rd) \<and> spec_probe_rms rd bytes j \<noteq> NaN"
    using Suc.prems(3) by simp
  have "\<exists>st'. FindSignalStart_loop rd cSiglen (spec_probe_rms rd bytes i) (i + 1) st1
      = Inr (True, i + 1 + d, st')"
    using Suc.prems(4,5) by (intro Suc.IH[OF st1 quiet(2) rest]) simp_all
  then show ?case using eq by simp
qed

lemma FindSignalStart_loop_not_found:
  assumes "a = length (spec_probe_window bytes i)" and "a = cSiglen \<longrightarrow> probed rd bytes i st"
    and "\<forall>j. i \<le> j \<and> j < i + d \<longrightarrow>
           length (spec_probe_window bytes j) = cSiglen
           \<and> \<not> fge (spec_probe_rms rd bytes j) (cMinRms rd) \<and> spec_probe_rms rd bytes j \<noteq> NaN"
    and "length (spec_probe_window bytes (i + d)) \<noteq> cSiglen \<or> spec_probe_rms rd bytes (i + d) = NaN"
  shows "\<exists>i' st'. FindSignalStart_loop rd a rms i st = Inr (False, i', st')"
  using assms
proof (induction d arbitrary: i st rms a)
  case 0
  show ?case
  proof (cases "fne rms rms \<or> a \<noteq> cSiglen")
    case True
    then show ?thesis using FindSignalStart_loop_exit[of rms a rd i st] by blast
  next
    case False
    then have a: "a = cSiglen" and r: "\<not> fne rms rms" by simp_all
    have p: "probed rd bytes i st" using 0(2) a by simp
    have q2: "spec_probe_rms rd bytes i = NaN" using 0(1,4) a by simp
    then have q: "\<not> fge (spec_probe_rms rd bytes i) (cMinRms rd)" "spec_probe_rms rd bytes i = NaN"
      by (simp_all add: fge_NaN)
    note st = FindSignalStart_loop_step[OF p r q(1)]
    show ?thesis
    proof (cases "length (spec_probe_window bytes (i + 1)) = cSiglen")
      case True
      then obtain st1 where "FindSignalStart_loop rd cSiglen rms i st
             = FindSignalStart_loop rd cSiglen (spec_probe_rms rd bytes i) (i + 1) st1"
        using st by blast
      then show ?thesis
        using FindSignalStart_loop_exit[of "spec_probe_rms rd bytes i" cSiglen rd "i + 1" st1] q(2) a
        by (simp add: fne_self)
    next
      case False
      then show ?thesis using st a by blast
    qed
  qed
next
  case (Suc d)
  show ?case
  proof (cases "fne rms rms \<or> a \<noteq> cSiglen")
    case True
    then show ?thesis using FindSignalStart_loop_exit[of rms a rd i st] by blast
  next
    case False
    then have a: "a = cSiglen" and r: "\<not> fne rms rms" by simp_all
    have p: "probed rd bytes i st" using Suc.prems(2) a by simp
    have q: "\<not> fge (spec_probe_rms rd bytes i) (cMinRms rd)" "spec_probe_rms rd bytes i \<noteq> NaN"
      using Suc.prems(3) by simp_all
    note st = FindSignalStart_loop_step[OF p r q(1)]
    show ?thesis
    proof (cases "length (spec_probe_window bytes (i + 1)) = cSiglen")
      case True
      then obtain st1 where st1: "probed rd bytes (i + 1) st1"
        and eq: "FindSignalStart_loop rd cSiglen rms i st
             = FindSignalStart_loop rd cSiglen (spec_probe_rms rd bytes i) (i + 1) st1"
        using st by blast
      have rest: "\<forall>j. i + 1 \<le> j \<and> j < i + 1 + d \<longrightarrow>
           length (spec_probe_window bytes j) = cSiglen
           \<and> \<not> fge (spec_probe_rms rd bytes j) (cMinRms rd) \<and> spec_probe_rms rd bytes j \<noteq> NaN"
        using Suc.prems(3) by simp
      have fin: "length (spec_probe_window bytes (i + 1 + d)) \<noteq> cSiglen
         \<or> spec_probe_rms rd bytes (i + 1 + d) = NaN"
        using Suc.prems(4) by simp
      have "\<exists>i' st'. FindSignalStart_loop rd cSiglen (spec_probe_rms rd bytes i) (i + 1) st1
          = Inr (False, i', st')"
        using True st1 by (intro Suc.IH[OF _ _ rest fin]) simp_all
      then show ?thesis using eq a by simp
    next
      case False
      then show ?thesis using st a by blast
    qed
  qed
qed

lemma FindSignalStart_loop_returns:
  "\<exists>found i' st'. FindSignalStart_loop rd a rms i st = Inr (found, i', st')"
proof (induction rd a rms i st rule: FindSignalStart_loop.induct)
  case (1 rd actRead rms i st)
  show ?case
  proof (cases "actRead = cSiglen \<and> \<not> fne rms rms")
    case False
    then have "fne rms rms \<or> actRead \<noteq> cSiglen" by blast
    then show ?thesis using FindSignalStart_loop_exit[of rms actRead rd i st] by blast
  next
    case True
    define rms' where "rms' = Rms rd (mSigBuffer st) 64"
    show ?thesis
    proof (cases "fge rms' (cMinRms rd)")
      case loud: True
      then show ?thesis
        using True by (subst FindSignalStart_loop.simps) (auto simp: Let_def rms'_def)
    next
      case quiet: False
      obtain a' st1 where sk: "FindSignalStart_skip actRead st = Inr (a', st1)"
        using FindSignalStart_reads_return[of "[0..<cSigSearchGridSize]" actRead st]
        by (auto simp: FindSignalStart_skip_def)
      show ?thesis
      proof (cases "a' = cSiglen")
        case full: True
        from 1(1)[OF True rms'_def quiet sk refl full]
        show ?thesis
          using True quiet sk full
          by (subst FindSignalStart_loop.simps) (simp add: Let_def rms'_def)
      next
        case short: False
        from 1(2)[OF True rms'_def quiet sk refl short]
        show ?thesis
          using True quiet sk short
          by (subst FindSignalStart_loop.simps) (simp add: Let_def rms'_def)
      qed
    qed
  qed
qed

text \<open>The search up to its loop: the header is skipped and window 0 is read and converted.\<close>

lemma FindSignalStart_first:
  assumes "length (mRawBuffer st) = cRawSiglen" and "cSiglen \<le> length (mSigBuffer st)"
  shows "\<exists>st0.
     (length (spec_probe_window (fbytes (mReader st)) 0) = cSiglen
        \<longrightarrow> probed rd (fbytes (mReader st)) 0 st0)
     \<and> FindSignalStart rd st =
         (case FindSignalStart_loop rd (length (spec_probe_window (fbytes (mReader st)) 0)) (Fin 0) 0 st0 of
            Inl e \<Rightarrow> Inl e
          | Inr (signalFound, i, st') \<Rightarrow>
              Inr (st'\<lparr>mSignalStart :=
                     (if signalFound then cHeaderSkip + i * cSigSearchGridSize * cSiglen
                      else cHeaderSkip)\<rparr>))"
proof -
  define bytes where "bytes = fbytes (mReader st)"
  define got1 where "got1 = take 1024 bytes"
  define got where "got = take 1024 (drop 1024 bytes)"
  define raw1 where "raw1 = store (mRawBuffer st) 0 got1"
  define r1 where "r1 = (mReader st)\<lparr>fpos := length got1\<rparr>"
  define raw2 where "raw2 = got @ replicate (8192 - length got) (0 :: byte)"
  define r2 where "r2 = r1\<lparr>fpos := length got1 + length got\<rparr>"
  define st0 where "st0 = st\<lparr>mRawBuffer := raw2, mReader := r2,
      mSigBuffer := ConvertSamples rd (mEnd r2) raw2 (mSigBuffer st) testFormat\<rparr>"
  have pw: "spec_probe_window bytes 0 = got"
    by (simp add: spec_probe_window_def got_def cSiglen_def cHeaderSkip_def)
  have lr: "length (mRawBuffer st) = 8192"
    using assms(1) by (simp add: cRawSiglen_def cSiglen_def)
  have l1: "length raw1 = 8192"
    unfolding raw1_def using lr by (subst store_length) (simp_all add: got1_def)
  have z: "store raw1 0 (replicate cRawSiglen 0) = replicate 8192 0"
    using l1 by (simp add: store_def cRawSiglen_def cSiglen_def)
  have g: "take 1024 (drop (length got1) bytes) = got"
    by (cases "1024 \<le> length bytes") (simp_all add: got1_def got_def)
  have s1: "ReadSamples (mRawBuffer st) cHeaderSkip (Suc 0) Uint8 Little (Reset0 (mReader st))
      = Inr (length got1, raw1, r1)"
    by (simp add: ReadSamples_Uint8 Reset0_def cHeaderSkip_def Let_def got1_def raw1_def r1_def
        bytes_def)
  have s2: "ReadSamples (store raw1 0 (replicate cRawSiglen 0)) cSiglen (Suc 0)
        (format testFormat) (endian testFormat) r1 = Inr (length got, raw2, r2)"
    unfolding z
    by (simp add: ReadSamples_Uint8 testFormat_def cSiglen_def Let_def r1_def g[unfolded bytes_def]
        bytes_def[symmetric] g raw2_def r2_def store_def)
  have eq: "FindSignalStart rd st =
         (case FindSignalStart_loop rd (length got) (Fin 0) 0 st0 of
            Inl e \<Rightarrow> Inl e
          | Inr (signalFound, i, st') \<Rightarrow>
              Inr (st'\<lparr>mSignalStart :=
                     (if signalFound then cHeaderSkip + i * cSigSearchGridSize * cSiglen
                      else cHeaderSkip)\<rparr>))"
    unfolding FindSignalStart_def One_nat_def s1 sum.case prod.case s2 st0_def ..
  have pr: "length got = cSiglen \<longrightarrow> probed rd bytes 0 st0"
  proof
    assume full: "length got = cSiglen"
    then have lg: "length got = 1024" by (simp add: cSiglen_def)
    then have "2048 \<le> length bytes" by (simp add: got_def)
    then have lg1: "length got1 = 1024" by (simp add: got1_def)
    have vals: "\<forall>n<64. mSigBuffer st0 ! n = rd (real (unat (spec_probe_window bytes 0 ! n)))"
    proof (intro allI impI)
      fix n :: nat
      assume n: "n < 64"
      have "raw2 ! n = got ! n" using n lg by (simp add: raw2_def nth_append)
      moreover have "mSigBuffer st0 ! n = rd (real (unat (raw2 ! n)))"
        using n lg assms(2)
        by (simp add: st0_def ConvertSamples_Uint8_nth testFormat_def cSiglen_def raw2_def)
      ultimately show "mSigBuffer st0 ! n = rd (real (unat (spec_probe_window bytes 0 ! n)))"
        by (simp add: pw)
    qed
    show "probed rd bytes 0 st0"
      unfolding probed_def pw
      using full vals assms(2) lg lg1
      by (simp add: st0_def r2_def r1_def bytes_def raw2_def ConvertSamples_length
          cSiglen_def cHeaderSkip_def pw[unfolded bytes_def])
  qed
  show ?thesis
    using eq pr unfolding pw[symmetric] bytes_def by blast
qed

text \<open>The Rms value of a window of bytes in binary32: it is 0, or a number not below 1/2.\<close>

lemma b32_minRms: "cMinRms binary32 = Fin (9223372 / 2 ^ 63)"
  unfolding cMinRms_def binary32_def
  by (subst round_binary_value[where e = "- 40" and k = 9223372])
     (simp_all add: pow2_def round_even_def)

lemma b32_above_one:
  assumes "1 \<le> x" and "x < 2 ^ 24"
  shows "\<exists>y. binary32 x = Fin y \<and> 1 / 2 \<le> y"
proof -
  define e where "e = max \<lfloor>log 2 \<bar>x\<bar>\<rfloor> (- 126)"
  define u where "u = pow2 (e - int 24 + 1)"
  define y where "y = of_int (round_even (x / u)) * u"
  have xp: "0 < x" "\<bar>x\<bar> = x" using assms(1) by simp_all
  have "0 \<le> log 2 x" using assms(1) by simp
  then have l0: "0 \<le> \<lfloor>log 2 x\<rfloor>" by simp
  have "log 2 x < 24" using assms(2) xp by (simp add: log_less_iff)
  then have l1: "\<lfloor>log 2 x\<rfloor> < 24" by (simp add: floor_less_iff)
  have "e = \<lfloor>log 2 x\<rfloor>" unfolding e_def xp using l0 by linarith
  then have e: "0 \<le> e" "e < 24" using l0 l1 by simp_all
  have up: "0 < u" by (simp add: u_def pow2_pos)
  have "u \<le> pow2 0"
    using e pow2_less[of "e - int 24 + 1" 0] by (cases "e - int 24 + 1 = 0") (auto simp: u_def)
  then have u1: "u \<le> 1" by (simp add: pow2_def)
  note c = round_even_close[of "x / u"]
  have "(x / u - 1 / 2) * u \<le> y"
    unfolding y_def using c up by (intro mult_right_mono) simp_all
  then have lo: "x - u / 2 \<le> y" using up by (simp add: algebra_simps)
  have "y \<le> (x / u + 1 / 2) * u"
    unfolding y_def using c up by (intro mult_right_mono) simp_all
  then have hi: "y \<le> x + u / 2" using up by (simp add: algebra_simps)
  have half: "1 / 2 \<le> y" using lo u1 assms(1) by linarith
  have "\<bar>y\<bar> < 2 ^ 25" using hi half u1 assms(2) by simp
  moreover have "(2::real) ^ 25 \<le> pow2 (127 + 1)" by (simp add: pow2_def)
  ultimately have no: "\<not> pow2 (127 + 1) \<le> \<bar>y\<bar>" by linarith
  have "binary32 x = Fin y"
    unfolding binary32_def round_binary_def Let_def
    unfolding e_def[symmetric] u_def[symmetric] y_def[symmetric]
    using xp no by simp
  then show ?thesis using half by blast
qed

lemma byte_squares:
  assumes "k \<le> 64" and "k \<le> length w"
  shows "fold (\<lambda>n rms. fadd binary32 rms
                 (fmul binary32 (map (\<lambda>b. binary32 (real (unat b))) w ! n)
                                (map (\<lambda>b. binary32 (real (unat b))) w ! n)))
              [0..<k] (Fin 0)
           = Fin (real (\<Sum>n<k. (unat (w ! n :: byte))\<^sup>2))
         \<and> (\<Sum>n<k. (unat (w ! n))\<^sup>2) \<le> k * 65025"
  using assms
proof (induction k)
  case 0
  then show ?case by simp
next
  case (Suc k)
  let ?g = "\<lambda>n rms. fadd binary32 rms
                 (fmul binary32 (map (\<lambda>b. binary32 (real (unat b))) w ! n)
                                (map (\<lambda>b. binary32 (real (unat b))) w ! n))"
  define u where "u = unat (w ! k)"
  define t where "t = (\<Sum>n<k. (unat (w ! n))\<^sup>2)"
  have ih: "fold ?g [0..<k] (Fin 0) = Fin (real t)"
    and tb: "t \<le> k * 65025"
    using Suc by (simp_all add: t_def)
  have "u < 2 ^ LENGTH(8)" unfolding u_def by (rule unsigned_less)
  then have ub: "u \<le> 255" by simp
  then have "u * u \<le> 255 * 255" by (intro mult_mono) simp_all
  then have sq: "u\<^sup>2 \<le> 65025" by (simp add: power2_eq_square)
  have kb: "k * 65025 \<le> 63 * 65025" using Suc.prems(1) by simp
  have v: "map (\<lambda>b. binary32 (real (unat b))) w ! k = Fin (real u)"
    using Suc.prems(2) ub by (simp add: u_def[symmetric] b32_nat del: of_nat_unat)
  have m: "fmul binary32 (Fin (real u)) (Fin (real u)) = Fin (real (u\<^sup>2))"
    using b32_nat[of "u\<^sup>2"] sq by (simp add: power2_eq_square)
  have a: "fadd binary32 (Fin (real t)) (Fin (real (u\<^sup>2))) = Fin (real (t + u\<^sup>2))"
    using b32_nat[of "t + u\<^sup>2"] sq tb kb by simp
  have "fold ?g [0..<Suc k] (Fin 0) = ?g k (fold ?g [0..<k] (Fin 0))" by simp
  also have "\<dots> = Fin (real (t + u\<^sup>2))" unfolding ih v m a ..
  finally have f: "fold ?g [0..<Suc k] (Fin 0) = Fin (real (t + u\<^sup>2))" .
  have e: "(\<Sum>n<Suc k. (unat (w ! n))\<^sup>2) = t + u\<^sup>2" by (simp add: t_def u_def)
  have b: "t + u\<^sup>2 \<le> Suc k * 65025" using tb sq by simp
  show ?case unfolding e using f b by blast
qed

lemma probe_rms_binary32:
  assumes "length (spec_probe_window bytes i) = cSiglen"
  shows "\<exists>y. spec_probe_rms binary32 bytes i = Fin y \<and> (y = 0 \<or> 1 / 2 \<le> y)
              \<and> (y = 0 \<longleftrightarrow> (\<forall>n<64. spec_probe_window bytes i ! n = 0))"
proof -
  define w where "w = spec_probe_window bytes i"
  define t where "t = (\<Sum>n<64::nat. (unat (w ! n))\<^sup>2)"
  have lw: "64 \<le> length w" using assms by (simp add: w_def cSiglen_def)
  have s: "fold (\<lambda>n rms. fadd binary32 rms
                 (fmul binary32 (map (\<lambda>b. binary32 (real (unat b))) w ! n)
                                (map (\<lambda>b. binary32 (real (unat b))) w ! n)))
              [0..<64] (Fin 0) = Fin (real t)"
    and tb: "t \<le> 64 * 65025"
    using byte_squares[of 64 w] lw by (simp_all add: t_def)
  have r: "spec_probe_rms binary32 bytes i = binary32 (sqrt (real t))"
    by (simp add: spec_probe_rms_def Rms_def w_def[symmetric] s del: of_nat_unat)
  have z: "t = 0 \<longleftrightarrow> (\<forall>n<64. w ! n = 0)"
    by (auto simp: t_def unat_eq_0)
  show ?thesis
  proof (cases "t = 0")
    case True
    then show ?thesis using r z by (simp add: b32_zero w_def)
  next
    case False
    then have t1: "1 \<le> real t" by simp
    then have "1 \<le> sqrt (real t)" by simp
    moreover have "sqrt (real t) * 1 \<le> sqrt (real t) * sqrt (real t)"
      using \<open>1 \<le> sqrt (real t)\<close> by (intro mult_left_mono) simp_all
    then have "sqrt (real t) \<le> real t" by simp
    then have "sqrt (real t) < 2 ^ 24" using tb by simp
    ultimately obtain y where "binary32 (sqrt (real t)) = Fin y" "1 / 2 \<le> y"
      using b32_above_one by blast
    then show ?thesis using r z False by (auto simp: w_def)
  qed
qed

lemma loud_binary32:
  assumes "length (spec_probe_window bytes i) = cSiglen"
  shows "spec_probe_rms binary32 bytes i \<noteq> NaN
     \<and> (fge (spec_probe_rms binary32 bytes i) (cMinRms binary32)
          \<longleftrightarrow> fgt (spec_probe_rms binary32 bytes i) (cMinRms binary32))
     \<and> (fge (spec_probe_rms binary32 bytes i) (cMinRms binary32)
          \<longleftrightarrow> (\<exists>n<64. spec_probe_window bytes i ! n \<noteq> 0))"
proof -
  obtain y where y: "spec_probe_rms binary32 bytes i = Fin y" "y = 0 \<or> 1 / 2 \<le> y"
    "y = 0 \<longleftrightarrow> (\<forall>n<64. spec_probe_window bytes i ! n = 0)"
    using probe_rms_binary32[OF assms] by blast
  have m: "(0::real) < 9223372 / 2 ^ 63" "(9223372 / 2 ^ 63 :: real) < 1 / 2" by simp_all
  have "fge (Fin y) (Fin (9223372 / 2 ^ 63)) \<longleftrightarrow> y \<noteq> 0"
    using y(2) m by (auto simp: fge_def feq_def)
  moreover have "fgt (Fin y) (Fin (9223372 / 2 ^ 63)) \<longleftrightarrow> y \<noteq> 0"
    using y(2) m by (auto simp: fgt_def)
  ultimately show ?thesis
    using y(3) by (simp add: y(1) b32_minRms)
qed

text \<open>
  Claim C4. Let the raw buffer and the signal buffer have their working sizes.
  \<^verbatim>\<open>FindSignalStart\<close> returns, with a start offset of at least \<open>cHeaderSkip = 1024\<close>. Window
  \<open>i\<close> is the \<open>cSiglen\<close> bytes at the offset \<open>cHeaderSkip + i * 32 * 1024\<close>, read as unsigned
  8-bit samples, and its Rms value is taken over its first 64 samples. If window \<open>i\<close> is in
  the file and its Rms value is at least \<open>cMinRms\<close>, and the Rms value of every window before
  it is a number below \<open>cMinRms\<close>, the start offset is the offset of window \<open>i\<close>. If window
  \<open>k\<close> is not in the file in full, or its Rms value is a NaN, and every window before it is
  in the file with an Rms value that is a number below \<open>cMinRms\<close>, the start offset is
  \<open>cHeaderSkip\<close>. In binary32 the Rms value of a window of the file is never a NaN, and it
  is at least \<open>cMinRms\<close> exactly when it exceeds \<open>cMinRms\<close>, which is exactly when one of the
  first 64 bytes of the window is not 0.
\<close>

theorem FindSignalStart_offset:
  assumes "length (mRawBuffer st) = cRawSiglen" and "cSiglen \<le> length (mSigBuffer st)"
  shows "\<exists>st'. FindSignalStart rd st = Inr st'
     \<and> cHeaderSkip \<le> mSignalStart st' \<and> cHeaderSkip = 1024
     \<and> cSigSearchGridSize * cSiglen = 32 * 1024
     \<and> (\<forall>i. length (spec_probe_window (fbytes (mReader st)) i) = cSiglen
              \<and> fge (spec_probe_rms rd (fbytes (mReader st)) i) (cMinRms rd)
              \<and> (\<forall>j<i. \<not> fge (spec_probe_rms rd (fbytes (mReader st)) j) (cMinRms rd)
                        \<and> spec_probe_rms rd (fbytes (mReader st)) j \<noteq> NaN)
            \<longrightarrow> mSignalStart st' = cHeaderSkip + i * cSigSearchGridSize * cSiglen)
     \<and> (\<forall>k. (\<forall>j<k. length (spec_probe_window (fbytes (mReader st)) j) = cSiglen
                        \<and> \<not> fge (spec_probe_rms rd (fbytes (mReader st)) j) (cMinRms rd)
                        \<and> spec_probe_rms rd (fbytes (mReader st)) j \<noteq> NaN)
              \<and> (length (spec_probe_window (fbytes (mReader st)) k) \<noteq> cSiglen
                  \<or> spec_probe_rms rd (fbytes (mReader st)) k = NaN)
            \<longrightarrow> mSignalStart st' = cHeaderSkip)
     \<and> (\<forall>i. length (spec_probe_window (fbytes (mReader st)) i) = cSiglen \<longrightarrow>
            spec_probe_rms binary32 (fbytes (mReader st)) i \<noteq> NaN
            \<and> (fge (spec_probe_rms binary32 (fbytes (mReader st)) i) (cMinRms binary32)
                 \<longleftrightarrow> fgt (spec_probe_rms binary32 (fbytes (mReader st)) i) (cMinRms binary32))
            \<and> (fge (spec_probe_rms binary32 (fbytes (mReader st)) i) (cMinRms binary32)
                 \<longleftrightarrow> (\<exists>n<64. spec_probe_window (fbytes (mReader st)) i ! n \<noteq> 0)))"
proof -
  define bytes where "bytes = fbytes (mReader st)"
  define a where "a = length (spec_probe_window bytes 0)"
  obtain st0 where pr: "a = cSiglen \<longrightarrow> probed rd bytes 0 st0"
    and eq: "FindSignalStart rd st =
         (case FindSignalStart_loop rd a (Fin 0) 0 st0 of
            Inl e \<Rightarrow> Inl e
          | Inr (signalFound, i, st') \<Rightarrow>
              Inr (st'\<lparr>mSignalStart :=
                     (if signalFound then cHeaderSkip + i * cSigSearchGridSize * cSiglen
                      else cHeaderSkip)\<rparr>))"
    using FindSignalStart_first[OF assms, of rd] unfolding bytes_def a_def by blast
  obtain found i' st1 where lp: "FindSignalStart_loop rd a (Fin 0) 0 st0 = Inr (found, i', st1)"
    using FindSignalStart_loop_returns by blast
  define st' where "st' = st1\<lparr>mSignalStart :=
      (if found then cHeaderSkip + i' * cSigSearchGridSize * cSiglen else cHeaderSkip)\<rparr>"
  have res: "FindSignalStart rd st = Inr st'" by (simp add: eq lp st'_def)
  have ge: "cHeaderSkip \<le> mSignalStart st'" by (simp add: st'_def)
  have c1: "cHeaderSkip = 1024" by (simp add: cHeaderSkip_def)
  have c2: "cSigSearchGridSize * cSiglen = 32 * 1024"
    by (simp add: cSigSearchGridSize_def cSiglen_def)
  have p1: "\<forall>i. length (spec_probe_window bytes i) = cSiglen
              \<and> fge (spec_probe_rms rd bytes i) (cMinRms rd)
              \<and> (\<forall>j<i. \<not> fge (spec_probe_rms rd bytes j) (cMinRms rd) \<and> spec_probe_rms rd bytes j \<noteq> NaN)
            \<longrightarrow> mSignalStart st' = cHeaderSkip + i * cSigSearchGridSize * cSiglen"
  proof (intro allI impI)
    fix i
    assume h: "length (spec_probe_window bytes i) = cSiglen
              \<and> fge (spec_probe_rms rd bytes i) (cMinRms rd)
              \<and> (\<forall>j<i. \<not> fge (spec_probe_rms rd bytes j) (cMinRms rd) \<and> spec_probe_rms rd bytes j \<noteq> NaN)"
    then have "a = cSiglen" using probe_window_mono[of bytes i 0] by (simp add: a_def)
    then have p: "probed rd bytes 0 st0" and a: "a = cSiglen" using pr by simp_all
    have "\<exists>st'. FindSignalStart_loop rd cSiglen (Fin 0) 0 st0 = Inr (True, 0 + i, st')"
      using h by (intro FindSignalStart_loop_found[OF p]) simp_all
    then have "found" "i' = i" using lp a by auto
    then show "mSignalStart st' = cHeaderSkip + i * cSigSearchGridSize * cSiglen"
      by (simp add: st'_def)
  qed
  have p2: "\<forall>k. (\<forall>j<k. length (spec_probe_window bytes j) = cSiglen
                        \<and> \<not> fge (spec_probe_rms rd bytes j) (cMinRms rd)
                        \<and> spec_probe_rms rd bytes j \<noteq> NaN)
              \<and> (length (spec_probe_window bytes k) \<noteq> cSiglen \<or> spec_probe_rms rd bytes k = NaN)
            \<longrightarrow> mSignalStart st' = cHeaderSkip"
  proof (intro allI impI)
    fix k
    assume h: "(\<forall>j<k. length (spec_probe_window bytes j) = cSiglen
                        \<and> \<not> fge (spec_probe_rms rd bytes j) (cMinRms rd)
                        \<and> spec_probe_rms rd bytes j \<noteq> NaN)
              \<and> (length (spec_probe_window bytes k) \<noteq> cSiglen \<or> spec_probe_rms rd bytes k = NaN)"
    have "\<exists>i' st'. FindSignalStart_loop rd a (Fin 0) 0 st0 = Inr (False, i', st')"
      using h pr by (intro FindSignalStart_loop_not_found[where bytes = bytes and d = k])
        (simp_all add: a_def)
    then have "\<not> found" using lp by auto
    then show "mSignalStart st' = cHeaderSkip" by (simp add: st'_def)
  qed
  have p3: "\<forall>i. length (spec_probe_window bytes i) = cSiglen \<longrightarrow>
            spec_probe_rms binary32 bytes i \<noteq> NaN
            \<and> (fge (spec_probe_rms binary32 bytes i) (cMinRms binary32)
                 \<longleftrightarrow> fgt (spec_probe_rms binary32 bytes i) (cMinRms binary32))
            \<and> (fge (spec_probe_rms binary32 bytes i) (cMinRms binary32)
                 \<longleftrightarrow> (\<exists>n<64. spec_probe_window bytes i ! n \<noteq> 0))"
    using loud_binary32 by blast
  show ?thesis
    unfolding bytes_def[symmetric]
    apply (rule exI[of _ st'])
    apply (intro conjI)
          apply (rule res)
         apply (rule ge)
        apply (rule c1)
       apply (rule c2)
      apply (rule p1)
     apply (rule p2)
    apply (rule p3)
    done
qed

text \<open>
  In binary32: a file with a silent window 0 and a window 1 of bytes 255 has the start offset
  \<open>1024 + 32 * 1024\<close>; a file of 2000 bytes 255, which ends inside window 0, has the start
  offset 1024.
\<close>

theorem FindSignalStart_offset_witness:
  "(let st = FormatClassifier_new (replicate 33792 0 @ replicate 1024 255) Little [] [];
        st2 = FormatClassifier_new (replicate 2000 255) Little [] []
    in length (mRawBuffer st) = cRawSiglen \<and> cSiglen \<le> length (mSigBuffer st)
       \<and> length (mRawBuffer st2) = cRawSiglen \<and> cSiglen \<le> length (mSigBuffer st2)
       \<and> length (spec_probe_window (fbytes (mReader st)) 1) = cSiglen
       \<and> fge (spec_probe_rms binary32 (fbytes (mReader st)) 1) (cMinRms binary32)
       \<and> \<not> fge (spec_probe_rms binary32 (fbytes (mReader st)) 0) (cMinRms binary32)
       \<and> spec_probe_rms binary32 (fbytes (mReader st)) 0 \<noteq> NaN
       \<and> (\<exists>st'. FindSignalStart binary32 st = Inr st' \<and> mSignalStart st' = 33792)
       \<and> length (spec_probe_window (fbytes (mReader st2)) 0) \<noteq> cSiglen
       \<and> (\<exists>st'. FindSignalStart binary32 st2 = Inr st' \<and> mSignalStart st' = 1024))"
proof -
  define f :: "byte list" where "f = replicate 33792 0 @ replicate 1024 255"
  define g :: "byte list" where "g = replicate 2000 255"
  define st where "st = FormatClassifier_new f Little [] []"
  define st2 where "st2 = FormatClassifier_new g Little [] []"
  have b: "fbytes (mReader st) = f" "fbytes (mReader st2) = g"
    by (simp_all add: st_def st2_def FormatClassifier_new_def)
  have h: "length (mRawBuffer st) = cRawSiglen" "cSiglen \<le> length (mSigBuffer st)"
    "length (mRawBuffer st2) = cRawSiglen" "cSiglen \<le> length (mSigBuffer st2)"
    by (simp_all add: st_def st2_def FormatClassifier_new_def)
  have w0: "spec_probe_window f 0 = replicate 1024 0"
    by (simp add: spec_probe_window_def f_def cSiglen_def cHeaderSkip_def)
  have w1: "spec_probe_window f (Suc 0) = replicate 1024 255"
    by (simp add: spec_probe_window_def f_def cSiglen_def cHeaderSkip_def cSigSearchGridSize_def)
  have v0: "spec_probe_window g 0 = replicate 976 255"
    by (simp add: spec_probe_window_def g_def cSiglen_def cHeaderSkip_def)
  have full: "length (spec_probe_window f 0) = cSiglen" "length (spec_probe_window f 1) = cSiglen"
    by (simp_all add: w0 w1 cSiglen_def)
  have short: "length (spec_probe_window g 0) \<noteq> cSiglen" by (simp add: v0 cSiglen_def)
  from FindSignalStart_offset[OF h(1,2), of binary32, unfolded b] obtain st' where
    r: "FindSignalStart binary32 st = Inr st'"
    and p1: "\<forall>i. length (spec_probe_window f i) = cSiglen
              \<and> fge (spec_probe_rms binary32 f i) (cMinRms binary32)
              \<and> (\<forall>j<i. \<not> fge (spec_probe_rms binary32 f j) (cMinRms binary32)
                        \<and> spec_probe_rms binary32 f j \<noteq> NaN)
            \<longrightarrow> mSignalStart st' = cHeaderSkip + i * cSigSearchGridSize * cSiglen"
    and p3: "\<forall>i. length (spec_probe_window f i) = cSiglen \<longrightarrow>
            spec_probe_rms binary32 f i \<noteq> NaN
            \<and> (fge (spec_probe_rms binary32 f i) (cMinRms binary32)
                 \<longleftrightarrow> fgt (spec_probe_rms binary32 f i) (cMinRms binary32))
            \<and> (fge (spec_probe_rms binary32 f i) (cMinRms binary32)
                 \<longleftrightarrow> (\<exists>n<64. spec_probe_window f i ! n \<noteq> 0))"
    by blast
  have "\<not> (\<exists>n<64. spec_probe_window f 0 ! n \<noteq> 0)" by (simp add: w0)
  then have q0: "\<not> fge (spec_probe_rms binary32 f 0) (cMinRms binary32)"
    "spec_probe_rms binary32 f 0 \<noteq> NaN"
    using p3[rule_format, OF full(1)] by blast+
  have "\<exists>n<64. spec_probe_window f 1 ! n \<noteq> 0"
    by (rule exI[of _ 0]) (simp add: w1)
  then have q1: "fge (spec_probe_rms binary32 f 1) (cMinRms binary32)"
    using p3[rule_format, OF full(2)] by blast
  have "mSignalStart st' = cHeaderSkip + 1 * cSigSearchGridSize * cSiglen"
    using p1[rule_format, of 1] full(2) q0 q1 by simp
  then have s1: "\<exists>st'. FindSignalStart binary32 st = Inr st' \<and> mSignalStart st' = 33792"
    using r by (simp add: cHeaderSkip_def cSigSearchGridSize_def cSiglen_def)
  from FindSignalStart_offset[OF h(3,4), of binary32, unfolded b] obtain st'' where
    r2: "FindSignalStart binary32 st2 = Inr st''"
    and p2: "\<forall>k. (\<forall>j<k. length (spec_probe_window g j) = cSiglen
                        \<and> \<not> fge (spec_probe_rms binary32 g j) (cMinRms binary32)
                        \<and> spec_probe_rms binary32 g j \<noteq> NaN)
              \<and> (length (spec_probe_window g k) \<noteq> cSiglen \<or> spec_probe_rms binary32 g k = NaN)
            \<longrightarrow> mSignalStart st'' = cHeaderSkip"
    by blast
  have "mSignalStart st'' = cHeaderSkip" using p2[rule_format, of 0] short by simp
  then have s2: "\<exists>st'. FindSignalStart binary32 st2 = Inr st' \<and> mSignalStart st' = 1024"
    using r2 by (simp add: cHeaderSkip_def)
  show ?thesis
    unfolding Let_def f_def[symmetric] g_def[symmetric] st_def[symmetric] st2_def[symmetric] b
    using h full(2) q1 q0 s1 short s2 by blast
qed

end
